theory Spec2Isabelle
  imports Main "HOL-Library.Sublist" "HOL-Library.AList" "HOL-Library.Char_ord"
    "HOL-Library.List_Lexorder"
begin

section \<open>Python string primitives used by the sources\<close>

text \<open>
  Python strings are modelled as \<^typ>\<open>string\<close>; the keys, alert texts and feed lines
  handled here are ASCII, so a character is one \<^typ>\<open>char\<close>. Python integers are
  unbounded and are modelled as \<^typ>\<open>int\<close>.
\<close>

datatype py_error = ValueError | TypeError | OperationalError

text \<open>\<^verbatim>\<open>sub in s\<close> for strings: \<open>sub\<close> occurs as a contiguous substring.\<close>

primrec contains :: "string \<Rightarrow> string \<Rightarrow> bool" where
  "contains sub [] = (sub = [])"
| "contains sub (c # cs) = (prefix sub (c # cs) \<or> contains sub cs)"





text \<open>\<^verbatim>\<open>s.split('->')\<close>: the pieces between the non-overlapping occurrences of the
  separator, found from the left. The accumulator holds the current piece reversed.\<close>

fun split_arrow_acc :: "string \<Rightarrow> string \<Rightarrow> string list" where
  "split_arrow_acc cur [] = [rev cur]"
| "split_arrow_acc cur [c] = [rev (c # cur)]"
| "split_arrow_acc cur (c # d # cs) =
     (if c = CHR ''-'' \<and> d = CHR ''>'' then rev cur # split_arrow_acc [] cs
      else split_arrow_acc (c # cur) (d # cs))"

definition split_arrow :: "string \<Rightarrow> string list" where
  "split_arrow s = split_arrow_acc [] s"


text \<open>\<^verbatim>\<open>str(n)\<close> of an integer: decimal digits, with a minus sign when negative.\<close>

definition digit_char :: "nat \<Rightarrow> char" where
  "digit_char n = char_of (48 + n)"

function str_nat :: "nat \<Rightarrow> string" where
  "str_nat n = (if n < 10 then [digit_char n] else str_nat (n div 10) @ [digit_char (n mod 10)])"
  by pat_completeness auto
termination
  by (relation "measure id") auto

declare str_nat.simps [simp del]

definition py_str :: "int \<Rightarrow> string" where
  "py_str n = (if n < 0 then CHR ''-'' # str_nat (nat (- n)) else str_nat (nat n))"

text \<open>\<^verbatim>\<open>int(s)\<close> of a string, base ten: surrounding whitespace is stripped, one sign
  may lead, and the digits may be grouped by single underscores. Anything else raises
  \<open>ValueError\<close>, which is the value \<open>None\<close> here.\<close>

definition is_space :: "char \<Rightarrow> bool" where
  "is_space c = (let n = (of_char c :: nat) in (9 \<le> n \<and> n \<le> 13) \<or> (28 \<le> n \<and> n \<le> 32))"

definition py_strip :: "string \<Rightarrow> string" where
  "py_strip s = rev (dropWhile is_space (rev (dropWhile is_space s)))"

definition is_digit :: "char \<Rightarrow> bool" where
  "is_digit c = (let n = (of_char c :: nat) in 48 \<le> n \<and> n \<le> 57)"





section \<open>Connection keys (database_manager.py)\<close>








section \<open>Alert attribution and the alert pipeline (traffic_analyzer.py)\<close>

text \<open>\<^verbatim>\<open>re.findall(r'(\d+\.\d+\.\d+\.\d+)', alert)\<close>. A greedy \<open>\d+\<close> takes every
  digit in front of it; since the next pattern element is a literal dot (or the end of
  the pattern), giving digits back can never help, so the match at a position is
  determined by the maximal digit runs. After a match the scan resumes behind it; after
  a failure it resumes one character further.\<close>

definition digits1 :: "string \<Rightarrow> (string \<times> string) option" where
  "digits1 s =
     (if takeWhile is_digit s = [] then None
      else Some (takeWhile is_digit s, dropWhile is_digit s))"

definition dot_digits1 :: "string \<Rightarrow> (string \<times> string) option" where
  "dot_digits1 s =
     (case s of
        [] \<Rightarrow> None
      | c # cs \<Rightarrow>
          if c = CHR ''.'' then
            (case digits1 cs of None \<Rightarrow> None | Some (d, r) \<Rightarrow> Some (c # d, r))
          else None)"

definition match_ip :: "string \<Rightarrow> (string \<times> string) option" where
  "match_ip s =
     (case digits1 s of
        None \<Rightarrow> None
      | Some (a, r1) \<Rightarrow>
          (case dot_digits1 r1 of
             None \<Rightarrow> None
           | Some (b, r2) \<Rightarrow>
               (case dot_digits1 r2 of
                  None \<Rightarrow> None
                | Some (c, r3) \<Rightarrow>
                    (case dot_digits1 r3 of
                       None \<Rightarrow> None
                     | Some (d, r4) \<Rightarrow> Some (a @ b @ c @ d, r4)))))"

lemma digits1_shorter: "digits1 s = Some (d, r) \<Longrightarrow> length r < length s \<and> s = d @ r"
proof -
  assume h: "digits1 s = Some (d, r)"
  then have d: "d = takeWhile is_digit s" "r = dropWhile is_digit s" "d \<noteq> []"
    by (auto simp: digits1_def split: if_splits)
  have e: "s = d @ r"
    unfolding d by simp
  then have "length s = length d + length r"
    by (metis length_append)
  moreover have "0 < length d" using d(3) by simp
  ultimately show ?thesis using e by linarith
qed

lemma dot_digits1_shorter: "dot_digits1 s = Some (d, r) \<Longrightarrow> length r < length s \<and> s = d @ r"
  by (cases s) (auto simp: dot_digits1_def split: if_splits option.splits dest: digits1_shorter)

lemma match_ip_shorter: "match_ip s = Some (m, r) \<Longrightarrow> length r < length s \<and> s = m @ r"
proof -
  assume "match_ip s = Some (m, r)"
  then obtain a r1 b r2 c r3 d where
    h: "digits1 s = Some (a, r1)" "dot_digits1 r1 = Some (b, r2)"
       "dot_digits1 r2 = Some (c, r3)" "dot_digits1 r3 = Some (d, r)" "m = a @ b @ c @ d"
    by (auto simp: match_ip_def split: option.splits)
  have l: "length r1 < length s" "length r2 < length r1" "length r3 < length r2"
      "length r < length r3"
    using digits1_shorter [OF h(1)] dot_digits1_shorter [OF h(2)]
      dot_digits1_shorter [OF h(3)] dot_digits1_shorter [OF h(4)] by blast+
  have e: "s = a @ r1" "r1 = b @ r2" "r2 = c @ r3" "r3 = d @ r"
    using digits1_shorter [OF h(1)] dot_digits1_shorter [OF h(2)]
      dot_digits1_shorter [OF h(3)] dot_digits1_shorter [OF h(4)] by blast+
  have "length r < length s" using l by linarith
  moreover have "s = m @ r" using e h(5) by simp
  ultimately show ?thesis by blast
qed

function findall_ip :: "string \<Rightarrow> string list" where
  "findall_ip [] = []"
| "findall_ip (c # cs) =
     (case match_ip (c # cs) of
        None \<Rightarrow> findall_ip cs
      | Some (m, rest) \<Rightarrow> m # findall_ip rest)"
  by pat_completeness auto
termination
proof (relation "measure length")
  show "wf (measure length)" by simp
next
  fix c :: char and cs :: string
  show "(cs, c # cs) \<in> measure length" by simp
next
  fix c :: char and cs x2 m rest
  assume "match_ip (c # cs) = Some x2" and "(m, rest) = x2"
  then have "match_ip (c # cs) = Some (m, rest)" by simp
  then have "length rest < length (c # cs)" using match_ip_shorter by blast
  then show "(rest, c # cs) \<in> measure length" by simp
qed

text \<open>\<^verbatim>\<open>s.lower()\<close> on ASCII text.\<close>

definition py_lower :: "string \<Rightarrow> string" where
  "py_lower s =
     map (\<lambda>c. if 65 \<le> (of_char c :: nat) \<and> (of_char c :: nat) \<le> 90
              then char_of ((of_char c :: nat) + 32) else c) s"

text \<open>The attribution of the offending address in \<open>analyze_traffic\<close>: \<open>malicious_ip\<close>
  stays \<open>None\<close> when the text holds no address.\<close>

definition attribute_ip :: "string \<Rightarrow> string option" where
  "attribute_ip alert =
     (let ip_matches = findall_ip alert in
      if 2 \<le> length ip_matches then
        (let src_ip = ip_matches ! 0; dst_ip = ip_matches ! 1 in
         if contains ''Malicious IP detected in connection from'' alert then Some dst_ip
         else if contains ''from Malicious IP'' alert \<or> contains ''from suspicious IP'' alert
           then Some src_ip
         else if contains ''VirusTotal'' alert then Some dst_ip
         else Some (ip_matches ! 0))
      else if length ip_matches = 1 then Some (ip_matches ! 0)
      else None)"

text \<open>The in-memory state the pipeline reads and writes: the false-positive set (one
  set object shared by the application and its \<open>IPManager\<close>), the per-address sets of
  alert texts already seen (\<open>capture_engine.alerts_by_ip\<close>, a \<open>defaultdict(set)\<close>), the
  alert queue of the database manager (an unbounded FIFO of \<open>(ip, message, rule)\<close>), and
  the notification requests made to the tray (\<open>(message, rule, ip)\<close>).\<close>

record engine =
  false_positives :: "string set"
  alerts_by_ip :: "string \<Rightarrow> string set"
  alert_queue :: "(string \<times> string \<times> string) list"
  notifications :: "(string \<times> string \<times> string) list"

text \<open>The body of the loop over one rule's alerts, for one alert.\<close>

definition process_alert :: "string \<Rightarrow> engine \<Rightarrow> string \<Rightarrow> engine" where
  "process_alert rule_name s alert =
     (case attribute_ip alert of
        None \<Rightarrow> s
      | Some malicious_ip \<Rightarrow>
          if malicious_ip = [] then s
          else if malicious_ip \<in> false_positives s then s
          else if alert \<notin> alerts_by_ip s malicious_ip then
            s\<lparr>alerts_by_ip := (alerts_by_ip s)(malicious_ip := insert alert (alerts_by_ip s malicious_ip)),
              alert_queue := alert_queue s @ [(malicious_ip, alert, rule_name)],
              notifications :=
                (if contains ''malicious'' (py_lower alert) \<or> contains ''virustotal'' (py_lower alert)
                 then notifications s @ [(alert, rule_name, malicious_ip)]
                 else notifications s)\<rparr>
          else s)"

text \<open>What one rule does in a cycle: \<open>rule.analyze\<close> raises, or returns its alert
  texts. A rule that raises is logged and the cycle goes on with the next rule.\<close>

datatype rule_outcome = Raises | Returns "string list"

record rule_run =
  rule_name :: string
  enabled :: bool
  outcome :: rule_outcome

definition run_rule :: "engine \<Rightarrow> rule_run \<Rightarrow> engine" where
  "run_rule s r =
     (if enabled r then
        (case outcome r of
           Raises \<Rightarrow> s
         | Returns rule_alerts \<Rightarrow> foldl (process_alert (rule_name r)) s rule_alerts)
      else s)"

definition analyze_traffic :: "engine \<Rightarrow> rule_run list \<Rightarrow> engine" where
  "analyze_traffic s rules = foldl run_rule s rules"

text \<open>The operator's actions on the same state: \<open>IPManager.mark_as_false_positive\<close>,
  \<open>remove_false_positive\<close> and (once confirmed in the dialog) \<open>clear_alerts\<close>.\<close>

definition mark_as_false_positive :: "string \<Rightarrow> engine \<Rightarrow> engine" where
  "mark_as_false_positive ip s =
     (if ip \<noteq> [] then s\<lparr>false_positives := insert ip (false_positives s)\<rparr> else s)"

definition remove_false_positive :: "string \<Rightarrow> engine \<Rightarrow> engine" where
  "remove_false_positive ip s = s\<lparr>false_positives := false_positives s - {ip}\<rparr>"

definition clear_alerts :: "engine \<Rightarrow> engine" where
  "clear_alerts s = s\<lparr>alerts_by_ip := (\<lambda>ip. {})\<rparr>"

datatype event =
    Analyze "rule_run list"
  | MarkFalsePositive string
  | RemoveFalsePositive string
  | ClearAlerts

fun step :: "engine \<Rightarrow> event \<Rightarrow> engine" where
  "step s (Analyze rules) = analyze_traffic s rules"
| "step s (MarkFalsePositive ip) = mark_as_false_positive ip s"
| "step s (RemoveFalsePositive ip) = remove_false_positive ip s"
| "step s ClearAlerts = clear_alerts s"

definition run_events :: "engine \<Rightarrow> event list \<Rightarrow> engine" where
  "run_events s evs = foldl step s evs"

text \<open>The state at process start: the false-positive set as loaded from its file, no
  alert seen, nothing queued.\<close>

definition initial_engine :: "string set \<Rightarrow> engine" where
  "initial_engine fps =
     \<lparr>false_positives = fps, alerts_by_ip = (\<lambda>ip. {}), alert_queue = [], notifications = []\<rparr>"

section \<open>The decode loop and the connection upsert (traffic_capture.py, database_manager.py)\<close>

subsection \<open>Extraction of record pairs from the buffer\<close>

definition newline :: char where
  "newline = CHR 0x0A"

text \<open>\<^verbatim>\<open>s.split('\n')\<close>.\<close>

fun split_char :: "char \<Rightarrow> string \<Rightarrow> string list" where
  "split_char c [] = [[]]"
| "split_char c (x # xs) =
     (if x = c then [] # split_char c xs
      else (case split_char c xs of
              [] \<Rightarrow> [[x]]
            | p # ps \<Rightarrow> (x # p) # ps))"

text \<open>The prefix that marks an index line: an opening brace and the word index in
  double quotes.\<close>

definition index_prefix :: string where
  "index_prefix = CHR ''{'' # CHR 0x22 # ''index'' @ [CHR 0x22]"

text \<open>The \<open>while\<close> loop of \<open>extract_ek_objects\<close> over the remaining lines. Whether
  \<open>json.loads\<close> accepts a line is a parameter (\<open>valid_json\<close>): the JSON grammar is the
  standard library's.\<close>

fun ek_scan :: "(string \<Rightarrow> bool) \<Rightarrow> string list \<Rightarrow> string list" where
  "ek_scan valid_json [] = []"
| "ek_scan valid_json (l # ls) =
     (if py_strip l = [] then ek_scan valid_json ls
      else if prefix index_prefix (py_strip l) then
        (case ls of
           [] \<Rightarrow> ek_scan valid_json ls
         | n # ns \<Rightarrow>
             if py_strip n \<noteq> [] then
               (if valid_json (py_strip n) then py_strip n # ek_scan valid_json ns
                else ek_scan valid_json ls)
             else ek_scan valid_json ls)
      else if valid_json (py_strip l) then py_strip l # ek_scan valid_json ls
      else ek_scan valid_json ls)"

definition extract_ek_objects :: "(string \<Rightarrow> bool) \<Rightarrow> string \<Rightarrow> string list" where
  "extract_ek_objects valid_json buffer = ek_scan valid_json (split_char newline (py_strip buffer))"

subsection \<open>The accumulation buffer of \<open>capture_packets\<close>\<close>

text \<open>One iteration of the loop over the feed, as far as the buffer is concerned. The
  argument is the line read, decoded; its length, like the buffer's, counts characters.
  An empty line leaves the buffer alone (\<open>continue\<close>). Otherwise the line and a newline
  are appended; if complete objects were found the buffer is cut to its last 1000
  characters; and the 10 MB check ends the iteration.\<close>

definition max_buffer :: nat where
  "max_buffer = 10000000"

definition capture_step :: "(string \<Rightarrow> bool) \<Rightarrow> string \<Rightarrow> string \<Rightarrow> string" where
  "capture_step valid_json buffer raw_line =
     (let line = py_strip raw_line in
      if line = [] then buffer
      else
        (let buffer1 = buffer @ line @ [newline];
             packet_objects = extract_ek_objects valid_json buffer1;
             buffer2 =
               (if packet_objects \<noteq> [] then
                  (if 1000 < length buffer1 then drop (length buffer1 - 1000) buffer1
                   else buffer1)
                else buffer1)
         in if max_buffer < length buffer2 then [] else buffer2))"

text \<open>The buffer at the start of the iteration that follows the given lines; it is
  empty before the first.\<close>

definition capture_buffer :: "(string \<Rightarrow> bool) \<Rightarrow> string list \<Rightarrow> string" where
  "capture_buffer valid_json feed = foldl (capture_step valid_json) [] feed"

subsection \<open>The connections table and \<open>add_packet\<close>\<close>

text \<open>A row of \<open>connections\<close>, with the columns \<open>add_packet\<close> and
  \<open>update_connection_ttl\<close> write. The table is the list of its rows.\<close>

record connection =
  conn_key :: string
  conn_src_ip :: string
  conn_dst_ip :: string
  conn_src_port :: "int option"
  conn_dst_port :: "int option"
  total_bytes :: int
  packet_count :: int
  is_rdp_client :: int
  conn_ttl :: "int option"

text \<open>\<open>add_packet\<close>: the \<open>UPDATE\<close> adds to the counters of every row with the key;
  when it touched no row (\<open>rowcount == 0\<close>) the row is inserted with the length as its
  byte count and a packet count of 1.\<close>

definition add_packet ::
  "connection list \<Rightarrow> string \<Rightarrow> string \<Rightarrow> string \<Rightarrow> int option \<Rightarrow> int option \<Rightarrow> int \<Rightarrow> int
     \<Rightarrow> bool \<times> connection list" where
  "add_packet rows connection_key src_ip dst_ip src_port dst_port len is_rdp =
     (let updated =
            map (\<lambda>r. if conn_key r = connection_key
                      then r\<lparr>total_bytes := total_bytes r + len, packet_count := packet_count r + 1\<rparr>
                      else r) rows;
          rowcount = length (filter (\<lambda>r. conn_key r = connection_key) rows)
      in if rowcount = 0 then
           (True, updated @
              [\<lparr>conn_key = connection_key, conn_src_ip = src_ip, conn_dst_ip = dst_ip,
                conn_src_port = src_port, conn_dst_port = dst_port, total_bytes = len,
                packet_count = 1, is_rdp_client = is_rdp, conn_ttl = None\<rparr>])
         else (True, updated))"

text \<open>A call of \<open>add_packet\<close> with positional arguments: the method has the parameters
  \<open>connection_key, src_ip, dst_ip, src_port, dst_port, length, is_rdp\<close>, and Python raises
  \<open>TypeError\<close> for a call that passes more. \<open>surplus\<close> holds the arguments beyond the
  seventh.\<close>

definition call_add_packet ::
  "connection list \<Rightarrow> string \<Rightarrow> string \<Rightarrow> string \<Rightarrow> int option \<Rightarrow> int option \<Rightarrow> int \<Rightarrow> int
     \<Rightarrow> string option list \<Rightarrow> py_error + (bool \<times> connection list)" where
  "call_add_packet rows connection_key src_ip dst_ip src_port dst_port len is_rdp surplus =
     (if surplus = [] then Inr (add_packet rows connection_key src_ip dst_ip src_port dst_port len is_rdp)
      else Inl TypeError)"

definition update_connection_ttl :: "connection list \<Rightarrow> string \<Rightarrow> int \<Rightarrow> connection list" where
  "update_connection_ttl rows connection_key t =
     map (\<lambda>r. if conn_key r = connection_key then r\<lparr>conn_ttl := Some t\<rparr> else r) rows"

subsection \<open>\<open>process_packet_ek\<close>, as far as the connections table is concerned\<close>

text \<open>The values \<open>process_packet_ek\<close> extracts from the layers of one decoded record:
  the addresses (IPv4 fields first, then IPv6), the ports (TCP first, then UDP), the
  frame length (0 when absent), the source MAC, the TTL or hop limit, and whether an ARP
  address field is present.\<close>

record packet =
  pkt_src_ip :: "string option"
  pkt_dst_ip :: "string option"
  pkt_src_port :: "int option"
  pkt_dst_port :: "int option"
  pkt_length :: int
  pkt_src_mac :: "string option"
  pkt_ttl :: "int option"
  pkt_has_arp :: bool

text \<open>\<^verbatim>\<open>not x\<close> for an optional string: \<open>None\<close> and the empty string are false.\<close>

definition truthy :: "string option \<Rightarrow> bool" where
  "truthy x = (case x of None \<Rightarrow> False | Some v \<Rightarrow> v \<noteq> [])"

definition packet_key :: "string \<Rightarrow> string \<Rightarrow> int option \<Rightarrow> int option \<Rightarrow> string" where
  "packet_key src_ip dst_ip src_port dst_port =
     (case (src_port, dst_port) of
        (Some sp, Some dp) \<Rightarrow> src_ip @ '':'' @ py_str sp @ ''->'' @ dst_ip @ '':'' @ py_str dp
      | _ \<Rightarrow> src_ip @ ''->'' @ dst_ip)"

text \<open>The function returns its boolean and leaves the table in the second component.
  The stores of protocol events go to other tables and are left out. The call of
  \<open>add_packet\<close> passes \<open>src_mac\<close> as an eighth positional argument; whatever it raises is
  caught by the handler of \<open>process_packet_ek\<close>, which returns \<open>False\<close>.\<close>

definition process_packet_ek ::
  "string set \<Rightarrow> connection list \<Rightarrow> packet \<Rightarrow> bool \<times> connection list" where
  "process_packet_ek fps rows pkt =
     (if \<not> pkt_has_arp pkt \<and> (\<not> truthy (pkt_src_ip pkt) \<or> \<not> truthy (pkt_dst_ip pkt))
        then (False, rows)
      else if (truthy (pkt_src_ip pkt) \<and> the (pkt_src_ip pkt) \<in> fps) \<or>
              (truthy (pkt_dst_ip pkt) \<and> the (pkt_dst_ip pkt) \<in> fps)
        then (False, rows)
      else if truthy (pkt_src_ip pkt) \<and> truthy (pkt_dst_ip pkt) then
        (let src_ip = the (pkt_src_ip pkt);
             dst_ip = the (pkt_dst_ip pkt);
             connection_key = packet_key src_ip dst_ip (pkt_src_port pkt) (pkt_dst_port pkt);
             rows1 = (case pkt_ttl pkt of
                        None \<Rightarrow> rows
                      | Some t \<Rightarrow> update_connection_ttl rows connection_key t);
             is_rdp = (if pkt_dst_port pkt = Some 3389 then 1 else 0)
         in case call_add_packet rows1 connection_key src_ip dst_ip (pkt_src_port pkt)
                   (pkt_dst_port pkt) (pkt_length pkt) is_rdp [pkt_src_mac pkt] of
              Inl e \<Rightarrow> (False, rows1)
            | Inr result \<Rightarrow> result)
      else (True, rows))"

text \<open>Decoding a sequence of records against the table.\<close>

definition process_packets :: "string set \<Rightarrow> connection list \<Rightarrow> packet list \<Rightarrow> connection list" where
  "process_packets fps rows pkts = foldl (\<lambda>rs p. snd (process_packet_ek fps rs p)) rows pkts"

section \<open>Synchronisation of the two stores (database_manager.py)\<close>

subsection \<open>Values, rows and tables\<close>

text \<open>
  A value stored in a column is \<open>NULL\<close>, a number or a text. Epoch timestamps are
  numbers; only their order matters to the synchroniser, so numbers are modelled as
  integers. \<open>a > b\<close> in a \<open>WHERE\<close> clause is never true when either side is \<open>NULL\<close>;
  any text is greater than any number; numbers compare by value and texts by their bytes.
\<close>

datatype sqlval = Null | Num int | Txt string

fun sql_gt :: "sqlval \<Rightarrow> sqlval \<Rightarrow> bool" where
  "sql_gt (Num a) (Num b) = (b < a)"
| "sql_gt (Txt a) (Txt b) = (b < a)"
| "sql_gt (Txt a) (Num b) = True"
| "sql_gt (Num a) (Txt b) = False"
| "sql_gt Null b = False"
| "sql_gt a Null = False"

text \<open>\<open>MAX\<close> ignores \<open>NULL\<close> and is \<open>NULL\<close> when there is nothing else.\<close>

definition sql_max2 :: "sqlval \<Rightarrow> sqlval \<Rightarrow> sqlval" where
  "sql_max2 a b = (if a = Null then b else if b = Null then a else if sql_gt b a then b else a)"

definition sql_max :: "sqlval list \<Rightarrow> sqlval" where
  "sql_max vs = foldl sql_max2 Null vs"

text \<open>\<^verbatim>\<open>x or default\<close> on a fetched value: \<open>None\<close>, zero and the empty text are false.\<close>

definition py_or :: "sqlval \<Rightarrow> sqlval \<Rightarrow> sqlval" where
  "py_or v d = (if v = Null \<or> v = Num 0 \<or> v = Txt [] then d else v)"

text \<open>A table: its columns (name and declared type, as \<open>PRAGMA table_info\<close> lists them),
  the columns of its primary key, and its rows, each a list of values in column order.
  A store is the list of its tables by name.\<close>

record table =
  t_columns :: "(string \<times> string) list"
  t_pkey :: "string list"
  t_rows :: "sqlval list list"

type_synonym store = "(string \<times> table) list"

definition colnames :: "table \<Rightarrow> string list" where
  "colnames t = map fst (t_columns t)"

text \<open>The value a row holds in a named column (\<open>NULL\<close> when the column is not among
  the names), and the primary key of a row.\<close>

definition cell :: "string list \<Rightarrow> sqlval list \<Rightarrow> string \<Rightarrow> sqlval" where
  "cell names vals c = (case map_of (zip names vals) c of None \<Rightarrow> Null | Some v \<Rightarrow> v)"

definition row_key :: "table \<Rightarrow> sqlval list \<Rightarrow> sqlval list" where
  "row_key t r = map (cell (colnames t) r) (t_pkey t)"

definition timestamp_of :: "table \<Rightarrow> sqlval list \<Rightarrow> sqlval" where
  "timestamp_of t r = cell (colnames t) r ''timestamp''"

text \<open>\<^verbatim>\<open>SELECT MAX(timestamp) FROM t\<close> raises when the table has no such column.\<close>

definition max_timestamp :: "table \<Rightarrow> py_error + sqlval" where
  "max_timestamp t =
     (if ''timestamp'' \<in> set (colnames t) then Inr (sql_max (map (timestamp_of t) (t_rows t)))
      else Inl OperationalError)"

text \<open>\<^verbatim>\<open>INSERT OR REPLACE INTO t (names) VALUES (vals)\<close>. Naming a column the table does
  not have raises. Columns not named become \<open>NULL\<close>. A primary key admits one row per key,
  so the row that holds the key of the new row, if there is one, is replaced by it; with
  no primary key, or a \<open>NULL\<close> in the key, the row is added.\<close>

fun replace_row :: "(sqlval list \<Rightarrow> sqlval list) \<Rightarrow> sqlval list \<Rightarrow> sqlval list list \<Rightarrow> sqlval list list" where
  "replace_row key_of new [] = [new]"
| "replace_row key_of new (x # xs) =
     (if key_of x = key_of new then new # xs else x # replace_row key_of new xs)"

definition put_row :: "table \<Rightarrow> sqlval list \<Rightarrow> sqlval list list \<Rightarrow> sqlval list list" where
  "put_row t new rs =
     (if t_pkey t = [] \<or> Null \<in> set (row_key t new) then rs @ [new]
      else replace_row (row_key t) new rs)"

definition insert_or_replace :: "table \<Rightarrow> string list \<Rightarrow> sqlval list \<Rightarrow> py_error + table" where
  "insert_or_replace t names vals =
     (if \<not> set names \<subseteq> set (colnames t) then Inl OperationalError
      else Inr (t\<lparr>t_rows := put_row t (map (cell names vals) (colnames t)) (t_rows t)\<rparr>))"

subsection \<open>One table of a pass\<close>

text \<open>What the pass cannot compute from the two stores: whether \<open>BEGIN\<close>, the listing of
  the capture tables or the commit raise, SQLite's \<open>datetime\<close> function, and the outcome
  of the reverse lookups of the enrichment step (the host name a row's server name is
  replaced by, if any).\<close>

record sync_env =
  begin_fails :: bool
  list_fails :: bool
  commit_fails :: bool
  datetime :: "sqlval \<Rightarrow> sqlval"
  resolved_name :: "sqlval list \<Rightarrow> string option"

text \<open>\<^verbatim>\<open>s.upper()\<close> on ASCII text, and the test of the declared type of the timestamp
  column.\<close>

definition py_upper :: "string \<Rightarrow> string" where
  "py_upper s =
     map (\<lambda>c. if 97 \<le> (of_char c :: nat) \<and> (of_char c :: nat) \<le> 122
              then char_of ((of_char c :: nat) - 32) else c) s"

definition timestamp_type :: "table \<Rightarrow> string" where
  "timestamp_type t = (case map_of (t_columns t) ''timestamp'' of None \<Rightarrow> [] | Some ty \<Rightarrow> ty)"

definition numeric_timestamp :: "table \<Rightarrow> bool" where
  "numeric_timestamp t =
     (py_upper (timestamp_type t) \<in> {''REAL'', ''INTEGER'', ''NUMERIC'', ''NUMBER''})"

text \<open>The cutoff of an incremental read, from the maximum timestamp \<open>m\<close> of the
  analysis table: for a numeric timestamp column \<open>m or 0\<close>; otherwise \<open>m or '1970-01-01'\<close>,
  passed through \<open>datetime\<close> by the query.\<close>

definition cutoff :: "sync_env \<Rightarrow> table \<Rightarrow> sqlval \<Rightarrow> sqlval" where
  "cutoff env ct m =
     (if numeric_timestamp ct then py_or m (Num 0)
      else datetime env (py_or m (Txt ''1970-01-01'')))"

text \<open>The rows of the capture table that the pass reads for a table other than
  \<open>arp_data\<close>: with a timestamp column and the table already in the analysis store, those
  whose timestamp is above the cutoff; otherwise all rows.\<close>

definition select_rows :: "sync_env \<Rightarrow> table \<Rightarrow> table option \<Rightarrow> py_error + sqlval list list" where
  "select_rows env ct existing =
     (case existing of
        None \<Rightarrow> Inr (t_rows ct)
      | Some at \<Rightarrow>
          if ''timestamp'' \<in> set (colnames ct) then
            (case max_timestamp at of
               Inl e \<Rightarrow> Inl e
             | Inr m \<Rightarrow>
                 Inr (filter (\<lambda>r. sql_gt (timestamp_of ct r) (cutoff env ct m)) (t_rows ct)))
          else Inr (t_rows ct))"

text \<open>The loop over the fetched rows: a row whose insert raises is logged and skipped,
  every other row counts.\<close>

definition insert_row :: "string list \<Rightarrow> table \<times> nat \<Rightarrow> sqlval list \<Rightarrow> table \<times> nat" where
  "insert_row names acc r =
     (case insert_or_replace (fst acc) names r of
        Inl e \<Rightarrow> acc
      | Inr t \<Rightarrow> (t, snd acc + 1))"

definition insert_rows :: "string list \<Rightarrow> table \<Rightarrow> sqlval list list \<Rightarrow> table \<times> nat" where
  "insert_rows names t rs = foldl (insert_row names) (t, 0) rs"

text \<open>The body of the loop over the tables, for a capture table \<open>ct\<close> and the table of
  that name in the analysis store, if it exists. The result is the analysis table after the
  iteration, the number of rows written and the number of tables created. A table missing
  in the analysis store is created empty with the capture table's definition. An
  exception raised in the body ends the iteration: what was written before it stays.\<close>

definition sync_one :: "sync_env \<Rightarrow> string \<Rightarrow> table \<Rightarrow> table option \<Rightarrow> table \<times> nat \<times> nat" where
  "sync_one env table_name ct existing =
     (let at = (case existing of None \<Rightarrow> ct\<lparr>t_rows := []\<rparr> | Some t \<Rightarrow> t);
          tables_created = (case existing of None \<Rightarrow> 1 | Some t \<Rightarrow> 0)
      in if table_name = ''arp_data'' then
           (case insert_rows (colnames ct) (at\<lparr>t_rows := []\<rparr>) (t_rows ct) of
              (t, n) \<Rightarrow> (t, n, tables_created))
         else if t_columns ct = [] then (at, 0, tables_created)
         else
           (case select_rows env ct existing of
              Inl e \<Rightarrow> (at, 0, tables_created)
            | Inr rs \<Rightarrow>
                (case insert_rows (colnames ct) at rs of
                   (t, n) \<Rightarrow> (t, n, tables_created))))"

definition sync_table :: "sync_env \<Rightarrow> store \<Rightarrow> store \<times> nat \<times> nat \<Rightarrow> string \<Rightarrow> store \<times> nat \<times> nat" where
  "sync_table env capture acc table_name =
     (case acc of
        (analysis, sync_count, tables_created) \<Rightarrow>
          (case map_of capture table_name of
             None \<Rightarrow> acc
           | Some ct \<Rightarrow>
               (case sync_one env table_name ct (map_of analysis table_name) of
                  (t, n, c) \<Rightarrow>
                    (AList.update table_name t analysis, sync_count + n, tables_created + c))))"

subsection \<open>The pass\<close>

text \<open>\<^verbatim>\<open>name NOT LIKE 'sqlite_%'\<close>: \<open>LIKE\<close> ignores ASCII case and its underscore matches
  any one character.\<close>

definition system_table :: "string \<Rightarrow> bool" where
  "system_table name = (7 \<le> length name \<and> py_lower (take 6 name) = ''sqlite'')"

definition all_tables :: "store \<Rightarrow> string list" where
  "all_tables capture = filter (\<lambda>n. \<not> system_table n) (map fst capture)"

definition sync_tables :: "sync_env \<Rightarrow> store \<Rightarrow> store \<Rightarrow> store \<times> nat \<times> nat" where
  "sync_tables env capture analysis =
     foldl (sync_table env capture) (analysis, 0, 0) (all_tables capture)"

text \<open>The enrichment step \<open>resolve_domain_names\<close>: it catches whatever it raises. A row
  it resolves gets the host name as its server name.\<close>

definition set_cell :: "string list \<Rightarrow> sqlval list \<Rightarrow> string \<Rightarrow> sqlval \<Rightarrow> sqlval list" where
  "set_cell names vals c v = map (\<lambda>(n, x). if n = c then v else x) (zip names vals)"

definition resolve_domain_names :: "sync_env \<Rightarrow> store \<Rightarrow> store \<times> nat" where
  "resolve_domain_names env analysis =
     (case map_of analysis ''tls_connections'' of
        None \<Rightarrow> (analysis, 0)
      | Some t \<Rightarrow>
          if \<not> {''id'', ''server_name'', ''connection_key''} \<subseteq> set (colnames t) then (analysis, 0)
          else
            (AList.update ''tls_connections''
               (t\<lparr>t_rows :=
                    map (\<lambda>r. case resolved_name env r of
                                None \<Rightarrow> r
                              | Some h \<Rightarrow> set_cell (colnames t) r ''server_name'' (Txt h))
                        (t_rows t)\<rparr>)
               analysis,
             length (filter (\<lambda>r. resolved_name env r \<noteq> None) (t_rows t))))"

text \<open>\<open>sync_databases\<close>: the analysis store after the pass and the number returned. An
  exception that reaches the outer handler rolls the transaction back, which leaves the
  analysis store as it was at \<open>BEGIN\<close>, and 0 is returned.\<close>

definition sync_databases :: "sync_env \<Rightarrow> store \<Rightarrow> store \<Rightarrow> store \<times> nat" where
  "sync_databases env capture analysis =
     (if begin_fails env then (analysis, 0)
      else if list_fails env then (analysis, 0)
      else
        (case sync_tables env capture analysis of
           (analysis1, sync_count, tables_created) \<Rightarrow>
             (case resolve_domain_names env analysis1 of
                (analysis2, resolved) \<Rightarrow>
                  if commit_fails env then (analysis, 0)
                  else (analysis2, sync_count + resolved))))"

text \<open>The number of rows of a table of a store (0 when the store has no such table).\<close>

definition row_count :: "store \<Rightarrow> string \<Rightarrow> nat" where
  "row_count db name = (case map_of db name of None \<Rightarrow> 0 | Some t \<Rightarrow> length (t_rows t))"

subsection \<open>Example stores\<close>

text \<open>Two stores for the concrete statements below. The capture store holds two alerts
  and one DNS query (and SQLite's own sequence table); the analysis store holds the alerts
  table, still empty, and a DNS table of an older definition that lacks the timestamp
  column. In \<open>example_env\<close> nothing fails at the level of the pass, \<open>datetime\<close> returns
  canonical timestamps unchanged, and no reverse lookup succeeds.\<close>

definition example_env :: sync_env where
  "example_env =
     \<lparr>begin_fails = False, list_fails = False, commit_fails = False,
      datetime = (\<lambda>v. v), resolved_name = (\<lambda>r. None)\<rparr>"







text \<open>A DNS table with three queries in the capture store and the first of them in the
  analysis store; and an ARP table whose analysis copy holds the later of the two capture
  rows and a row the capture store no longer has.\<close>

definition dns_columns :: "(string \<times> string) list" where
  "dns_columns = [(''id'', ''INTEGER''), (''timestamp'', ''REAL''), (''src_ip'', ''TEXT'')]"

definition example_dns_capture :: table where
  "example_dns_capture =
     \<lparr>t_columns = dns_columns, t_pkey = [''id''],
      t_rows = [[Num 1, Num 100, Txt ''10.0.0.5''], [Num 2, Num 200, Txt ''10.0.0.6''],
                [Num 3, Num 300, Txt ''10.0.0.5'']]\<rparr>"

definition example_dns_analysis :: table where
  "example_dns_analysis =
     \<lparr>t_columns = dns_columns, t_pkey = [''id''],
      t_rows = [[Num 1, Num 100, Txt ''10.0.0.5'']]\<rparr>"

definition arp_columns :: "(string \<times> string) list" where
  "arp_columns =
     [(''id'', ''INTEGER''), (''timestamp'', ''REAL''), (''src_ip'', ''TEXT''),
      (''dst_ip'', ''TEXT''), (''operation'', ''INTEGER''), (''src_mac'', ''TEXT'')]"

definition example_arp_capture :: table where
  "example_arp_capture =
     \<lparr>t_columns = arp_columns, t_pkey = [''id''],
      t_rows = [[Num 1, Num 100, Txt ''10.0.0.5'', Txt ''10.0.0.1'', Num 1, Null],
                [Num 2, Num 200, Txt ''10.0.0.1'', Txt ''10.0.0.5'', Num 2, Null]]\<rparr>"

definition example_arp_analysis :: table where
  "example_arp_analysis =
     \<lparr>t_columns = arp_columns, t_pkey = [''id''],
      t_rows = [[Num 2, Num 200, Txt ''10.0.0.1'', Txt ''10.0.0.5'', Num 2, Null],
                [Num 3, Num 150, Txt ''10.0.0.7'', Txt ''10.0.0.1'', Num 1, Null]]\<rparr>"


section \<open>Properties of the connection keys\<close>

subsection \<open>Splitting and endpoint extraction\<close>

lemma split_arrow_acc_no_arrow:
  "\<not> contains ''->'' s \<Longrightarrow> split_arrow_acc cur s = [rev cur @ s]"
  by (induction cur s rule: split_arrow_acc.induct) auto

lemma contains_no_gt: "CHR ''>'' \<notin> set s \<Longrightarrow> \<not> contains ''->'' s"
  by (induction s) (auto simp: prefix_def)

lemma split_arrow_acc_first:
  "CHR ''>'' \<notin> set a \<Longrightarrow>
   split_arrow_acc cur (a @ CHR ''-'' # CHR ''>'' # b) = (rev cur @ a) # split_arrow_acc [] b"
proof (induction a arbitrary: cur)
  case Nil
  then show ?case by simp
next
  case (Cons x xs)
  show ?case
  proof (cases xs)
    case Nil
    with Cons.prems show ?thesis by simp
  next
    case (Cons y ys)
    with Cons.prems Cons.IH [of "x # cur"] show ?thesis by auto
  qed
qed

lemma split_arrow_key:
  "CHR ''>'' \<notin> set a \<Longrightarrow> CHR ''>'' \<notin> set b \<Longrightarrow> split_arrow (a @ ''->'' @ b) = [a, b]"
  by (simp add: split_arrow_def split_arrow_acc_first split_arrow_acc_no_arrow contains_no_gt)
























section \<open>Properties of the alert pipeline\<close>

subsection \<open>Attribution\<close>

lemma findall_ip_nonempty: "m \<in> set (findall_ip s) \<Longrightarrow> m \<noteq> []"
proof (induction s rule: findall_ip.induct)
  case 1
  then show ?case by simp
next
  case (2 c cs)
  show ?case
  proof (cases "match_ip (c # cs)")
    case None
    with 2 show ?thesis by simp
  next
    case (Some p)
    obtain m' rest where p: "p = (m', rest)" by (cases p)
    from Some p obtain a r1 b r2 c' r3 d where
      h: "digits1 (c # cs) = Some (a, r1)" "m' = a @ b @ c' @ d"
      by (auto simp: match_ip_def split: option.splits)
    from h(1) have "a \<noteq> []" by (auto simp: digits1_def split: if_splits)
    with h(2) have "m' \<noteq> []" by simp
    with 2 Some p show ?thesis by auto
  qed
qed

lemma attribute_ip_nonempty: "attribute_ip alert = Some ip \<Longrightarrow> ip \<noteq> []"
proof -
  assume h: "attribute_ip alert = Some ip"
  have "ip \<in> set (findall_ip alert)"
  proof (cases "findall_ip alert")
    case Nil
    with h show ?thesis by (simp add: attribute_ip_def)
  next
    case (Cons a as)
    show ?thesis
    proof (cases as)
      case Nil
      with Cons h show ?thesis by (simp add: attribute_ip_def)
    next
      case (Cons b bs)
      with \<open>findall_ip alert = a # as\<close> h show ?thesis
        by (auto simp: attribute_ip_def Let_def split: if_splits)
    qed
  qed
  then show ?thesis by (rule findall_ip_nonempty)
qed

text \<open>
  C3 (as amended). With two or more addresses in the text the attributed address is: the
  second address if the text contains "Malicious IP detected in connection from";
  otherwise the first if it contains "from Malicious IP" or "from suspicious IP";
  otherwise the second if it contains "VirusTotal"; otherwise the first. With exactly one
  address it is that address, and with none there is no attributed address.
\<close>

theorem attribution_rule:
  "(findall_ip alert = a # b # rest \<longrightarrow>
      attribute_ip alert =
        Some (if contains ''Malicious IP detected in connection from'' alert then b
              else if contains ''from Malicious IP'' alert \<or> contains ''from suspicious IP'' alert then a
              else if contains ''VirusTotal'' alert then b
              else a)) \<and>
   (findall_ip alert = [a] \<longrightarrow> attribute_ip alert = Some a) \<and>
   (findall_ip alert = [] \<longrightarrow> attribute_ip alert = None)"
  by (simp add: attribute_ip_def Let_def)

theorem attribution_rule_witness:
  "findall_ip ''Malicious IP detected in connection from 10.0.0.5 to 203.0.113.9'' = [''10.0.0.5'', ''203.0.113.9''] \<and>
   attribute_ip ''Malicious IP detected in connection from 10.0.0.5 to 203.0.113.9'' = Some ''203.0.113.9'' \<and>
   findall_ip ''Connection from Malicious IP 10.0.0.5 to 203.0.113.9'' = [''10.0.0.5'', ''203.0.113.9''] \<and>
   attribute_ip ''Connection from Malicious IP 10.0.0.5 to 203.0.113.9'' = Some ''10.0.0.5'' \<and>
   findall_ip ''Large transfer 10.0.0.5 -> 203.0.113.9'' = [''10.0.0.5'', ''203.0.113.9''] \<and>
   attribute_ip ''Large transfer 10.0.0.5 -> 203.0.113.9'' = Some ''10.0.0.5'' \<and>
   findall_ip ''Port scan by 10.0.0.5'' = [''10.0.0.5''] \<and>
   attribute_ip ''Port scan by 10.0.0.5'' = Some ''10.0.0.5''"
proof -
  have f1: "findall_ip ''Malicious IP detected in connection from 10.0.0.5 to 203.0.113.9'' = [''10.0.0.5'', ''203.0.113.9'']"
    by code_simp
  have c1: "contains ''Malicious IP detected in connection from'' ''Malicious IP detected in connection from 10.0.0.5 to 203.0.113.9''"
    by code_simp
  have t1: "attribute_ip ''Malicious IP detected in connection from 10.0.0.5 to 203.0.113.9'' = Some ''203.0.113.9''"
    using attribution_rule [of "''Malicious IP detected in connection from 10.0.0.5 to 203.0.113.9''" "''10.0.0.5''" "''203.0.113.9''" "[]"] f1 c1
    by (simp only: simp_thms if_True)
  have f2: "findall_ip ''Connection from Malicious IP 10.0.0.5 to 203.0.113.9'' = [''10.0.0.5'', ''203.0.113.9'']"
    by code_simp
  have c2: "\<not> contains ''Malicious IP detected in connection from'' ''Connection from Malicious IP 10.0.0.5 to 203.0.113.9''"
    "contains ''from Malicious IP'' ''Connection from Malicious IP 10.0.0.5 to 203.0.113.9''"
    by code_simp+
  have t2: "attribute_ip ''Connection from Malicious IP 10.0.0.5 to 203.0.113.9'' = Some ''10.0.0.5''"
    using attribution_rule [of "''Connection from Malicious IP 10.0.0.5 to 203.0.113.9''" "''10.0.0.5''" "''203.0.113.9''" "[]"] f2 c2
    by (simp only: simp_thms if_True if_False)
  have f4: "findall_ip ''Large transfer 10.0.0.5 -> 203.0.113.9'' = [''10.0.0.5'', ''203.0.113.9'']"
    by code_simp
  have c4: "\<not> contains ''Malicious IP detected in connection from'' ''Large transfer 10.0.0.5 -> 203.0.113.9''"
    "\<not> contains ''from Malicious IP'' ''Large transfer 10.0.0.5 -> 203.0.113.9''" "\<not> contains ''from suspicious IP'' ''Large transfer 10.0.0.5 -> 203.0.113.9''"
    "\<not> contains ''VirusTotal'' ''Large transfer 10.0.0.5 -> 203.0.113.9''"
    by code_simp+
  have t4: "attribute_ip ''Large transfer 10.0.0.5 -> 203.0.113.9'' = Some ''10.0.0.5''"
    using attribution_rule [of "''Large transfer 10.0.0.5 -> 203.0.113.9''" "''10.0.0.5''" "''203.0.113.9''" "[]"] f4 c4
    by (simp only: simp_thms if_True if_False)
  have f5: "findall_ip ''Port scan by 10.0.0.5'' = [''10.0.0.5'']"
    by code_simp
  have t5: "attribute_ip ''Port scan by 10.0.0.5'' = Some ''10.0.0.5''"
    using attribution_rule [of "''Port scan by 10.0.0.5''" "''10.0.0.5''" "''203.0.113.9''" "[]"] f5
    by (simp only: simp_thms)
  show ?thesis using f1 t1 f2 t2 f4 t4 f5 t5 by (simp only: simp_thms)
qed

text \<open>
  The claim as stated fails on a text that holds "VirusTotal" and neither phrase: it has
  two addresses, the claim attributes the first, the code attributes the second.
\<close>

theorem attribution_counterexample:
  "findall_ip ''VirusTotal flagged connection 10.0.0.5 -> 203.0.113.9'' = [''10.0.0.5'', ''203.0.113.9''] \<and>
   \<not> contains ''Malicious IP detected in connection from'' ''VirusTotal flagged connection 10.0.0.5 -> 203.0.113.9'' \<and>
   \<not> contains ''from Malicious IP'' ''VirusTotal flagged connection 10.0.0.5 -> 203.0.113.9'' \<and>
   attribute_ip ''VirusTotal flagged connection 10.0.0.5 -> 203.0.113.9'' = Some ''203.0.113.9'' \<and>
   attribute_ip ''VirusTotal flagged connection 10.0.0.5 -> 203.0.113.9'' \<noteq> Some (findall_ip ''VirusTotal flagged connection 10.0.0.5 -> 203.0.113.9'' ! 0)"
  by code_simp

subsection \<open>Deduplication\<close>

lemma distinct_map_filter_le1:
  "distinct (map f xs) \<Longrightarrow> length (filter (\<lambda>e. f e = k) xs) \<le> 1"
proof (induction xs)
  case Nil
  then show ?case by simp
next
  case (Cons x xs)
  show ?case
  proof (cases "f x = k")
    case True
    with Cons.prems have "filter (\<lambda>e. f e = k) xs = []"
      by (auto simp: filter_empty_conv image_iff)
    with True show ?thesis by simp
  next
    case False
    with Cons show ?thesis by simp
  qed
qed

lemma process_alert_dedup:
  assumes "distinct (map (\<lambda>e. (fst e, fst (snd e))) (alert_queue s))"
    and "\<forall>e \<in> set (alert_queue s). fst (snd e) \<in> alerts_by_ip s (fst e)"
    and "distinct (map (\<lambda>e. (snd (snd e), fst e)) (notifications s))"
    and "\<forall>e \<in> set (notifications s). fst e \<in> alerts_by_ip s (snd (snd e))"
  shows "distinct (map (\<lambda>e. (fst e, fst (snd e))) (alert_queue (process_alert r s alert))) \<and>
    (\<forall>e \<in> set (alert_queue (process_alert r s alert)).
        fst (snd e) \<in> alerts_by_ip (process_alert r s alert) (fst e)) \<and>
    distinct (map (\<lambda>e. (snd (snd e), fst e)) (notifications (process_alert r s alert))) \<and>
    (\<forall>e \<in> set (notifications (process_alert r s alert)).
        fst e \<in> alerts_by_ip (process_alert r s alert) (snd (snd e)))"
proof (cases "attribute_ip alert")
  case None
  with assms show ?thesis by (simp add: process_alert_def)
next
  case (Some ip)
  show ?thesis
  proof (cases "ip = [] \<or> ip \<in> false_positives s \<or> alert \<in> alerts_by_ip s ip")
    case True
    with Some assms show ?thesis by (auto simp: process_alert_def)
  next
    case False
    have q: "(ip, alert) \<notin> set (map (\<lambda>e. (fst e, fst (snd e))) (alert_queue s))"
      using False assms(2) by force
    have n: "(ip, alert) \<notin> set (map (\<lambda>e. (snd (snd e), fst e)) (notifications s))"
      using False assms(4) by force
    from False Some assms q n show ?thesis
      by (auto simp: process_alert_def)
  qed
qed

lemma foldl_process_alert_dedup:
  assumes "distinct (map (\<lambda>e. (fst e, fst (snd e))) (alert_queue s))"
    and "\<forall>e \<in> set (alert_queue s). fst (snd e) \<in> alerts_by_ip s (fst e)"
    and "distinct (map (\<lambda>e. (snd (snd e), fst e)) (notifications s))"
    and "\<forall>e \<in> set (notifications s). fst e \<in> alerts_by_ip s (snd (snd e))"
  shows "distinct (map (\<lambda>e. (fst e, fst (snd e))) (alert_queue (foldl (process_alert r) s alerts))) \<and>
    (\<forall>e \<in> set (alert_queue (foldl (process_alert r) s alerts)).
        fst (snd e) \<in> alerts_by_ip (foldl (process_alert r) s alerts) (fst e)) \<and>
    distinct (map (\<lambda>e. (snd (snd e), fst e)) (notifications (foldl (process_alert r) s alerts))) \<and>
    (\<forall>e \<in> set (notifications (foldl (process_alert r) s alerts)).
        fst e \<in> alerts_by_ip (foldl (process_alert r) s alerts) (snd (snd e)))"
  using assms
proof (induction alerts arbitrary: s)
  case Nil
  then show ?case by simp
next
  case (Cons a alerts)
  from process_alert_dedup [OF Cons.prems, of r a]
  have "distinct (map (\<lambda>e. (fst e, fst (snd e))) (alert_queue (process_alert r s a)))"
    "\<forall>e \<in> set (alert_queue (process_alert r s a)).
        fst (snd e) \<in> alerts_by_ip (process_alert r s a) (fst e)"
    "distinct (map (\<lambda>e. (snd (snd e), fst e)) (notifications (process_alert r s a)))"
    "\<forall>e \<in> set (notifications (process_alert r s a)).
        fst e \<in> alerts_by_ip (process_alert r s a) (snd (snd e))"
    by blast+
  from Cons.IH [OF this] show ?case by simp
qed

lemma step_dedup:
  assumes "ev \<noteq> ClearAlerts"
    and "distinct (map (\<lambda>e. (fst e, fst (snd e))) (alert_queue s))"
    and "\<forall>e \<in> set (alert_queue s). fst (snd e) \<in> alerts_by_ip s (fst e)"
    and "distinct (map (\<lambda>e. (snd (snd e), fst e)) (notifications s))"
    and "\<forall>e \<in> set (notifications s). fst e \<in> alerts_by_ip s (snd (snd e))"
  shows "distinct (map (\<lambda>e. (fst e, fst (snd e))) (alert_queue (step s ev))) \<and>
    (\<forall>e \<in> set (alert_queue (step s ev)). fst (snd e) \<in> alerts_by_ip (step s ev) (fst e)) \<and>
    distinct (map (\<lambda>e. (snd (snd e), fst e)) (notifications (step s ev))) \<and>
    (\<forall>e \<in> set (notifications (step s ev)). fst e \<in> alerts_by_ip (step s ev) (snd (snd e)))"
proof (cases ev)
  case (Analyze rules)
  have "distinct (map (\<lambda>e. (fst e, fst (snd e))) (alert_queue (foldl run_rule s rules))) \<and>
    (\<forall>e \<in> set (alert_queue (foldl run_rule s rules)).
        fst (snd e) \<in> alerts_by_ip (foldl run_rule s rules) (fst e)) \<and>
    distinct (map (\<lambda>e. (snd (snd e), fst e)) (notifications (foldl run_rule s rules))) \<and>
    (\<forall>e \<in> set (notifications (foldl run_rule s rules)).
        fst e \<in> alerts_by_ip (foldl run_rule s rules) (snd (snd e)))"
    using assms(2-5)
  proof (induction rules arbitrary: s)
    case Nil
    then show ?case by simp
  next
    case (Cons r rules)
    have "distinct (map (\<lambda>e. (fst e, fst (snd e))) (alert_queue (run_rule s r))) \<and>
      (\<forall>e \<in> set (alert_queue (run_rule s r)).
          fst (snd e) \<in> alerts_by_ip (run_rule s r) (fst e)) \<and>
      distinct (map (\<lambda>e. (snd (snd e), fst e)) (notifications (run_rule s r))) \<and>
      (\<forall>e \<in> set (notifications (run_rule s r)).
          fst e \<in> alerts_by_ip (run_rule s r) (snd (snd e)))"
    proof (cases "enabled r")
      case False
      with Cons.prems show ?thesis by (simp add: run_rule_def)
    next
      case True
      show ?thesis
      proof (cases "outcome r")
        case Raises
        with True Cons.prems show ?thesis by (simp add: run_rule_def)
      next
        case (Returns alerts)
        with True foldl_process_alert_dedup [OF Cons.prems, of "rule_name r" alerts]
        show ?thesis by (simp add: run_rule_def)
      qed
    qed
    then have "distinct (map (\<lambda>e. (fst e, fst (snd e))) (alert_queue (run_rule s r)))"
      "\<forall>e \<in> set (alert_queue (run_rule s r)).
          fst (snd e) \<in> alerts_by_ip (run_rule s r) (fst e)"
      "distinct (map (\<lambda>e. (snd (snd e), fst e)) (notifications (run_rule s r)))"
      "\<forall>e \<in> set (notifications (run_rule s r)).
          fst e \<in> alerts_by_ip (run_rule s r) (snd (snd e))"
      by blast+
    from Cons.IH [OF this] show ?case by simp
  qed
  with Analyze show ?thesis by (simp add: analyze_traffic_def)
next
  case (MarkFalsePositive ip)
  with assms show ?thesis by (simp add: mark_as_false_positive_def)
next
  case (RemoveFalsePositive ip)
  with assms show ?thesis by (simp add: remove_false_positive_def)
next
  case ClearAlerts
  with assms show ?thesis by simp
qed

lemma run_events_dedup:
  assumes "ClearAlerts \<notin> set evs"
    and "distinct (map (\<lambda>e. (fst e, fst (snd e))) (alert_queue s))"
    and "\<forall>e \<in> set (alert_queue s). fst (snd e) \<in> alerts_by_ip s (fst e)"
    and "distinct (map (\<lambda>e. (snd (snd e), fst e)) (notifications s))"
    and "\<forall>e \<in> set (notifications s). fst e \<in> alerts_by_ip s (snd (snd e))"
  shows "distinct (map (\<lambda>e. (fst e, fst (snd e))) (alert_queue (foldl step s evs))) \<and>
    distinct (map (\<lambda>e. (snd (snd e), fst e)) (notifications (foldl step s evs)))"
  using assms
proof (induction evs arbitrary: s)
  case Nil
  then show ?case by simp
next
  case (Cons ev evs)
  then have ne: "ev \<noteq> ClearAlerts" and rest: "ClearAlerts \<notin> set evs" by auto
  from step_dedup [OF ne Cons.prems(2-5)]
  have "distinct (map (\<lambda>e. (fst e, fst (snd e))) (alert_queue (step s ev)))"
    "\<forall>e \<in> set (alert_queue (step s ev)). fst (snd e) \<in> alerts_by_ip (step s ev) (fst e)"
    "distinct (map (\<lambda>e. (snd (snd e), fst e)) (notifications (step s ev)))"
    "\<forall>e \<in> set (notifications (step s ev)). fst e \<in> alerts_by_ip (step s ev) (snd (snd e))"
    by blast+
  from Cons.IH [OF rest this] show ?case by simp
qed

lemma alert_dedup_trace:
  "ClearAlerts \<notin> set evs \<longrightarrow>
   length (filter (\<lambda>e. fst e = ip \<and> fst (snd e) = msg)
             (alert_queue (run_events (initial_engine fps) evs))) \<le> 1 \<and>
   length (filter (\<lambda>e. snd (snd e) = ip \<and> fst e = msg)
             (notifications (run_events (initial_engine fps) evs))) \<le> 1"
proof
  assume h: "ClearAlerts \<notin> set evs"
  have d: "distinct (map (\<lambda>e. (fst e, fst (snd e))) (alert_queue (foldl step (initial_engine fps) evs))) \<and>
    distinct (map (\<lambda>e. (snd (snd e), fst e)) (notifications (foldl step (initial_engine fps) evs)))"
    by (rule run_events_dedup [OF h]) (simp_all add: initial_engine_def)
  have a: "length (filter (\<lambda>e. (fst e, fst (snd e)) = (ip, msg))
             (alert_queue (foldl step (initial_engine fps) evs))) \<le> 1"
    using d by (intro distinct_map_filter_le1) simp
  have b: "length (filter (\<lambda>e. (snd (snd e), fst e) = (ip, msg))
             (notifications (foldl step (initial_engine fps) evs))) \<le> 1"
    using d by (intro distinct_map_filter_le1) simp
  from a b show "length (filter (\<lambda>e. fst e = ip \<and> fst (snd e) = msg)
             (alert_queue (run_events (initial_engine fps) evs))) \<le> 1 \<and>
   length (filter (\<lambda>e. snd (snd e) = ip \<and> fst e = msg)
             (notifications (run_events (initial_engine fps) evs))) \<le> 1"
    by (simp add: run_events_def)
qed

text \<open>
  C7 (as amended). From process start and as long as the operator does not clear the
  alerts (\<open>clear_alerts\<close> empties the per-address sets), whatever the rules return and
  however the false-positive set changes, the alert queue receives at most one record per
  (ip, message) pair and at most one notification is requested for it: the first
  occurrence that passes the false-positive filter is recorded in the per-address set
  and queued, and an occurrence whose text is already recorded changes nothing.
\<close>

theorem alert_dedup:
  "(ClearAlerts \<notin> set evs \<longrightarrow>
      length (filter (\<lambda>e. fst e = ip \<and> fst (snd e) = msg)
                (alert_queue (run_events (initial_engine fps) evs))) \<le> 1 \<and>
      length (filter (\<lambda>e. snd (snd e) = ip \<and> fst e = msg)
                (notifications (run_events (initial_engine fps) evs))) \<le> 1) \<and>
   (attribute_ip msg = Some ip \<and> ip \<notin> false_positives s \<and> msg \<notin> alerts_by_ip s ip \<longrightarrow>
      alert_queue (process_alert r s msg) = alert_queue s @ [(ip, msg, r)] \<and>
      msg \<in> alerts_by_ip (process_alert r s msg) ip) \<and>
   (attribute_ip msg = Some ip \<and> msg \<in> alerts_by_ip s ip \<longrightarrow> process_alert r s msg = s)"
proof (intro conjI)
  show "ClearAlerts \<notin> set evs \<longrightarrow>
      length (filter (\<lambda>e. fst e = ip \<and> fst (snd e) = msg)
                (alert_queue (run_events (initial_engine fps) evs))) \<le> 1 \<and>
      length (filter (\<lambda>e. snd (snd e) = ip \<and> fst e = msg)
                (notifications (run_events (initial_engine fps) evs))) \<le> 1"
    by (rule alert_dedup_trace)
next
  show "attribute_ip msg = Some ip \<and> ip \<notin> false_positives s \<and> msg \<notin> alerts_by_ip s ip \<longrightarrow>
      alert_queue (process_alert r s msg) = alert_queue s @ [(ip, msg, r)] \<and>
      msg \<in> alerts_by_ip (process_alert r s msg) ip"
    using attribute_ip_nonempty [of msg ip] by (auto simp: process_alert_def)
next
  show "attribute_ip msg = Some ip \<and> msg \<in> alerts_by_ip s ip \<longrightarrow> process_alert r s msg = s"
    by (auto simp: process_alert_def)
qed

theorem alert_dedup_witness:
  "ClearAlerts \<notin> set [Analyze [\<lparr>rule_name = ''scan'', enabled = True, outcome = Returns [''Port scan by 10.0.0.5'', ''Port scan by 10.0.0.5'']\<rparr>],
                       MarkFalsePositive ''10.9.9.9'',
                       Analyze [\<lparr>rule_name = ''scan'', enabled = True, outcome = Returns [''Port scan by 10.0.0.5'']\<rparr>]] \<and>
   alert_queue (run_events (initial_engine {})
      [Analyze [\<lparr>rule_name = ''scan'', enabled = True, outcome = Returns [''Port scan by 10.0.0.5'', ''Port scan by 10.0.0.5'']\<rparr>],
       MarkFalsePositive ''10.9.9.9'',
       Analyze [\<lparr>rule_name = ''scan'', enabled = True, outcome = Returns [''Port scan by 10.0.0.5'']\<rparr>]]) =
     [(''10.0.0.5'', ''Port scan by 10.0.0.5'', ''scan'')] \<and>
   length (filter (\<lambda>e. fst e = ''10.0.0.5'' \<and> fst (snd e) = ''Port scan by 10.0.0.5'')
     (alert_queue (run_events (initial_engine {})
        [Analyze [\<lparr>rule_name = ''scan'', enabled = True, outcome = Returns [''Port scan by 10.0.0.5'', ''Port scan by 10.0.0.5'']\<rparr>],
         MarkFalsePositive ''10.9.9.9'',
         Analyze [\<lparr>rule_name = ''scan'', enabled = True, outcome = Returns [''Port scan by 10.0.0.5'']\<rparr>]]))) \<le> 1"
proof -
  have n: "ClearAlerts \<notin> set [Analyze [\<lparr>rule_name = ''scan'', enabled = True, outcome = Returns [''Port scan by 10.0.0.5'', ''Port scan by 10.0.0.5'']\<rparr>],
                       MarkFalsePositive ''10.9.9.9'',
                       Analyze [\<lparr>rule_name = ''scan'', enabled = True, outcome = Returns [''Port scan by 10.0.0.5'']\<rparr>]]"
    by simp
  have q: "alert_queue (run_events (initial_engine {})
      [Analyze [\<lparr>rule_name = ''scan'', enabled = True, outcome = Returns [''Port scan by 10.0.0.5'', ''Port scan by 10.0.0.5'']\<rparr>],
       MarkFalsePositive ''10.9.9.9'',
       Analyze [\<lparr>rule_name = ''scan'', enabled = True, outcome = Returns [''Port scan by 10.0.0.5'']\<rparr>]]) =
     [(''10.0.0.5'', ''Port scan by 10.0.0.5'', ''scan'')]"
    by code_simp
  from n q alert_dedup [of
      "[Analyze [\<lparr>rule_name = ''scan'', enabled = True, outcome = Returns [''Port scan by 10.0.0.5'', ''Port scan by 10.0.0.5'']\<rparr>],
        MarkFalsePositive ''10.9.9.9'',
        Analyze [\<lparr>rule_name = ''scan'', enabled = True, outcome = Returns [''Port scan by 10.0.0.5'']\<rparr>]]"
      "''10.0.0.5''" "''Port scan by 10.0.0.5''" "{}" "initial_engine {}" "''scan''"]
  show ?thesis by blast
qed

text \<open>
  The claim as stated fails when the operator clears the alerts between two cycles: the
  same pair is queued a second time within the same process lifetime.
\<close>

theorem alert_dedup_counterexample:
  "alert_queue (run_events (initial_engine {})
      [Analyze [\<lparr>rule_name = ''scan'', enabled = True, outcome = Returns [''Port scan by 10.0.0.5'']\<rparr>],
       ClearAlerts,
       Analyze [\<lparr>rule_name = ''scan'', enabled = True, outcome = Returns [''Port scan by 10.0.0.5'']\<rparr>]]) =
     [(''10.0.0.5'', ''Port scan by 10.0.0.5'', ''scan''), (''10.0.0.5'', ''Port scan by 10.0.0.5'', ''scan'')] \<and>
   length (filter (\<lambda>e. fst e = ''10.0.0.5'' \<and> fst (snd e) = ''Port scan by 10.0.0.5'')
     (alert_queue (run_events (initial_engine {})
        [Analyze [\<lparr>rule_name = ''scan'', enabled = True, outcome = Returns [''Port scan by 10.0.0.5'']\<rparr>],
         ClearAlerts,
         Analyze [\<lparr>rule_name = ''scan'', enabled = True, outcome = Returns [''Port scan by 10.0.0.5'']\<rparr>]]))) = 2"
  by code_simp

subsection \<open>False-positive suppression\<close>

lemma process_alert_suppressed:
  assumes "X = [] \<or> X \<in> false_positives s"
  shows "\<exists>qn nn. alert_queue (process_alert r s alert) = alert_queue s @ qn \<and>
           notifications (process_alert r s alert) = notifications s @ nn \<and>
           (\<forall>e \<in> set qn. fst e \<noteq> X) \<and> (\<forall>e \<in> set nn. snd (snd e) \<noteq> X) \<and>
           false_positives (process_alert r s alert) = false_positives s"
proof (cases "attribute_ip alert")
  case None
  then show ?thesis by (simp add: process_alert_def)
next
  case (Some ip)
  show ?thesis
  proof (cases "ip = [] \<or> ip \<in> false_positives s \<or> alert \<in> alerts_by_ip s ip")
    case True
    with Some show ?thesis by (auto simp: process_alert_def)
  next
    case False
    with assms have "ip \<noteq> X" by auto
    with False Some show ?thesis by (auto simp: process_alert_def)
  qed
qed

lemma foldl_process_alert_suppressed:
  assumes "X = [] \<or> X \<in> false_positives s"
  shows "\<exists>qn nn. alert_queue (foldl (process_alert r) s alerts) = alert_queue s @ qn \<and>
           notifications (foldl (process_alert r) s alerts) = notifications s @ nn \<and>
           (\<forall>e \<in> set qn. fst e \<noteq> X) \<and> (\<forall>e \<in> set nn. snd (snd e) \<noteq> X) \<and>
           false_positives (foldl (process_alert r) s alerts) = false_positives s"
  using assms
proof (induction alerts arbitrary: s)
  case Nil
  then show ?case by simp
next
  case (Cons a alerts)
  from process_alert_suppressed [OF Cons.prems, of r a]
  obtain q1 n1 where
    1: "alert_queue (process_alert r s a) = alert_queue s @ q1"
       "notifications (process_alert r s a) = notifications s @ n1"
       "\<forall>e \<in> set q1. fst e \<noteq> X" "\<forall>e \<in> set n1. snd (snd e) \<noteq> X"
       "false_positives (process_alert r s a) = false_positives s"
    by blast
  have "X = [] \<or> X \<in> false_positives (process_alert r s a)"
    using Cons.prems 1(5) by simp
  from Cons.IH [OF this]
  obtain q2 n2 where
    2: "alert_queue (foldl (process_alert r) (process_alert r s a) alerts) =
          alert_queue (process_alert r s a) @ q2"
       "notifications (foldl (process_alert r) (process_alert r s a) alerts) =
          notifications (process_alert r s a) @ n2"
       "\<forall>e \<in> set q2. fst e \<noteq> X" "\<forall>e \<in> set n2. snd (snd e) \<noteq> X"
       "false_positives (foldl (process_alert r) (process_alert r s a) alerts) =
          false_positives (process_alert r s a)"
    by blast
  have "alert_queue (foldl (process_alert r) s (a # alerts)) = alert_queue s @ (q1 @ q2)"
    "notifications (foldl (process_alert r) s (a # alerts)) = notifications s @ (n1 @ n2)"
    "\<forall>e \<in> set (q1 @ q2). fst e \<noteq> X" "\<forall>e \<in> set (n1 @ n2). snd (snd e) \<noteq> X"
    "false_positives (foldl (process_alert r) s (a # alerts)) = false_positives s"
    using 1 2 by auto
  then show ?case by blast
qed

lemma run_rule_suppressed:
  assumes "X = [] \<or> X \<in> false_positives s"
  shows "\<exists>qn nn. alert_queue (run_rule s r) = alert_queue s @ qn \<and>
           notifications (run_rule s r) = notifications s @ nn \<and>
           (\<forall>e \<in> set qn. fst e \<noteq> X) \<and> (\<forall>e \<in> set nn. snd (snd e) \<noteq> X) \<and>
           false_positives (run_rule s r) = false_positives s"
proof (cases "enabled r")
  case False
  then show ?thesis by (simp add: run_rule_def)
next
  case True
  show ?thesis
  proof (cases "outcome r")
    case Raises
    with True show ?thesis by (simp add: run_rule_def)
  next
    case (Returns alerts)
    with True foldl_process_alert_suppressed [OF assms, of "rule_name r" alerts]
    show ?thesis by (simp add: run_rule_def)
  qed
qed

lemma analyze_traffic_suppressed:
  assumes "X = [] \<or> X \<in> false_positives s"
  shows "\<exists>qn nn. alert_queue (analyze_traffic s rules) = alert_queue s @ qn \<and>
           notifications (analyze_traffic s rules) = notifications s @ nn \<and>
           (\<forall>e \<in> set qn. fst e \<noteq> X) \<and> (\<forall>e \<in> set nn. snd (snd e) \<noteq> X) \<and>
           false_positives (analyze_traffic s rules) = false_positives s"
  using assms unfolding analyze_traffic_def
proof (induction rules arbitrary: s)
  case Nil
  then show ?case by simp
next
  case (Cons r rules)
  from run_rule_suppressed [OF Cons.prems, of r]
  obtain q1 n1 where
    1: "alert_queue (run_rule s r) = alert_queue s @ q1"
       "notifications (run_rule s r) = notifications s @ n1"
       "\<forall>e \<in> set q1. fst e \<noteq> X" "\<forall>e \<in> set n1. snd (snd e) \<noteq> X"
       "false_positives (run_rule s r) = false_positives s"
    by blast
  have "X = [] \<or> X \<in> false_positives (run_rule s r)"
    using Cons.prems 1(5) by simp
  from Cons.IH [OF this]
  obtain q2 n2 where
    2: "alert_queue (foldl run_rule (run_rule s r) rules) = alert_queue (run_rule s r) @ q2"
       "notifications (foldl run_rule (run_rule s r) rules) = notifications (run_rule s r) @ n2"
       "\<forall>e \<in> set q2. fst e \<noteq> X" "\<forall>e \<in> set n2. snd (snd e) \<noteq> X"
       "false_positives (foldl run_rule (run_rule s r) rules) = false_positives (run_rule s r)"
    by blast
  have "alert_queue (foldl run_rule s (r # rules)) = alert_queue s @ (q1 @ q2)"
    "notifications (foldl run_rule s (r # rules)) = notifications s @ (n1 @ n2)"
    "\<forall>e \<in> set (q1 @ q2). fst e \<noteq> X" "\<forall>e \<in> set (n1 @ n2). snd (snd e) \<noteq> X"
    "false_positives (foldl run_rule s (r # rules)) = false_positives s"
    using 1 2 by auto
  then show ?case by blast
qed

lemma step_suppressed:
  assumes "ev \<noteq> RemoveFalsePositive X" and "X = [] \<or> X \<in> false_positives s"
  shows "\<exists>qn nn. alert_queue (step s ev) = alert_queue s @ qn \<and>
           notifications (step s ev) = notifications s @ nn \<and>
           (\<forall>e \<in> set qn. fst e \<noteq> X) \<and> (\<forall>e \<in> set nn. snd (snd e) \<noteq> X) \<and>
           (X = [] \<or> X \<in> false_positives (step s ev))"
proof (cases ev)
  case (Analyze rules)
  with analyze_traffic_suppressed [OF assms(2), of rules] assms(2) show ?thesis by auto
next
  case (MarkFalsePositive ip)
  with assms show ?thesis by (auto simp: mark_as_false_positive_def)
next
  case (RemoveFalsePositive ip)
  with assms show ?thesis by (auto simp: remove_false_positive_def)
next
  case ClearAlerts
  with assms show ?thesis by (simp add: clear_alerts_def)
qed

lemma run_events_suppressed:
  assumes "RemoveFalsePositive X \<notin> set evs" and "X = [] \<or> X \<in> false_positives s"
  shows "\<exists>qn nn. alert_queue (foldl step s evs) = alert_queue s @ qn \<and>
           notifications (foldl step s evs) = notifications s @ nn \<and>
           (\<forall>e \<in> set qn. fst e \<noteq> X) \<and> (\<forall>e \<in> set nn. snd (snd e) \<noteq> X)"
  using assms
proof (induction evs arbitrary: s)
  case Nil
  then show ?case by simp
next
  case (Cons ev evs)
  then have ne: "ev \<noteq> RemoveFalsePositive X" and rest: "RemoveFalsePositive X \<notin> set evs"
    by auto
  from step_suppressed [OF ne Cons.prems(2)]
  obtain q1 n1 where
    1: "alert_queue (step s ev) = alert_queue s @ q1"
       "notifications (step s ev) = notifications s @ n1"
       "\<forall>e \<in> set q1. fst e \<noteq> X" "\<forall>e \<in> set n1. snd (snd e) \<noteq> X"
       "X = [] \<or> X \<in> false_positives (step s ev)"
    by blast
  from Cons.IH [OF rest 1(5)]
  obtain q2 n2 where
    2: "alert_queue (foldl step (step s ev) evs) = alert_queue (step s ev) @ q2"
       "notifications (foldl step (step s ev) evs) = notifications (step s ev) @ n2"
       "\<forall>e \<in> set q2. fst e \<noteq> X" "\<forall>e \<in> set n2. snd (snd e) \<noteq> X"
    by blast
  have "alert_queue (foldl step s (ev # evs)) = alert_queue s @ (q1 @ q2)"
    "notifications (foldl step s (ev # evs)) = notifications s @ (n1 @ n2)"
    "\<forall>e \<in> set (q1 @ q2). fst e \<noteq> X" "\<forall>e \<in> set (n1 @ n2). snd (snd e) \<noteq> X"
    using 1 2 by auto
  then show ?case by blast
qed

text \<open>
  C8 (as amended). After address X is marked as a false positive, and for as long as X is
  not removed from the set again (\<open>remove_false_positive\<close>), no analysis cycle queues
  or notifies an alert attributed to X, whichever rule returned it and whatever else
  happens in between (other markings and removals, clearing the alerts): the records
  queued and the notifications requested after the marking all carry another address, and
  what was queued before stays as it was.
\<close>

theorem false_positive_suppression:
  "RemoveFalsePositive X \<notin> set evs \<longrightarrow>
   (\<forall>e \<in> set (drop (length (alert_queue (mark_as_false_positive X s)))
                 (alert_queue (run_events (mark_as_false_positive X s) evs))). fst e \<noteq> X) \<and>
   (\<forall>e \<in> set (drop (length (notifications (mark_as_false_positive X s)))
                 (notifications (run_events (mark_as_false_positive X s) evs))). snd (snd e) \<noteq> X) \<and>
   take (length (alert_queue (mark_as_false_positive X s)))
     (alert_queue (run_events (mark_as_false_positive X s) evs)) =
     alert_queue (mark_as_false_positive X s)"
proof
  assume h: "RemoveFalsePositive X \<notin> set evs"
  have "X = [] \<or> X \<in> false_positives (mark_as_false_positive X s)"
    by (simp add: mark_as_false_positive_def)
  from run_events_suppressed [OF h this]
  obtain qn nn where
    1: "alert_queue (foldl step (mark_as_false_positive X s) evs) =
          alert_queue (mark_as_false_positive X s) @ qn"
       "notifications (foldl step (mark_as_false_positive X s) evs) =
          notifications (mark_as_false_positive X s) @ nn"
       "\<forall>e \<in> set qn. fst e \<noteq> X" "\<forall>e \<in> set nn. snd (snd e) \<noteq> X"
    by blast
  then show "(\<forall>e \<in> set (drop (length (alert_queue (mark_as_false_positive X s)))
                 (alert_queue (run_events (mark_as_false_positive X s) evs))). fst e \<noteq> X) \<and>
   (\<forall>e \<in> set (drop (length (notifications (mark_as_false_positive X s)))
                 (notifications (run_events (mark_as_false_positive X s) evs))). snd (snd e) \<noteq> X) \<and>
   take (length (alert_queue (mark_as_false_positive X s)))
     (alert_queue (run_events (mark_as_false_positive X s) evs)) =
     alert_queue (mark_as_false_positive X s)"
    by (simp add: run_events_def)
qed

theorem false_positive_suppression_witness:
  "RemoveFalsePositive ''10.0.0.5'' \<notin> set
      [Analyze [\<lparr>rule_name = ''scan'', enabled = True, outcome = Returns [''Port scan by 10.0.0.5'', ''Large transfer 10.0.0.5 -> 203.0.113.9'']\<rparr>],
       ClearAlerts, RemoveFalsePositive ''10.9.9.9'',
       Analyze [\<lparr>rule_name = ''vt'', enabled = True, outcome = Returns [''VirusTotal flagged connection 10.0.0.5 -> 203.0.113.9'', ''Port scan by 10.0.0.5'']\<rparr>]] \<and>
   alert_queue (run_events (mark_as_false_positive ''10.0.0.5'' (initial_engine {}))
      [Analyze [\<lparr>rule_name = ''scan'', enabled = True, outcome = Returns [''Port scan by 10.0.0.5'', ''Large transfer 10.0.0.5 -> 203.0.113.9'']\<rparr>],
       ClearAlerts, RemoveFalsePositive ''10.9.9.9'',
       Analyze [\<lparr>rule_name = ''vt'', enabled = True, outcome = Returns [''VirusTotal flagged connection 10.0.0.5 -> 203.0.113.9'', ''Port scan by 10.0.0.5'']\<rparr>]]) =
     [(''203.0.113.9'', ''VirusTotal flagged connection 10.0.0.5 -> 203.0.113.9'', ''vt'')] \<and>
   list_all (\<lambda>e. fst e \<noteq> ''10.0.0.5'')
     (drop (length (alert_queue (mark_as_false_positive ''10.0.0.5'' (initial_engine {}))))
       (alert_queue (run_events (mark_as_false_positive ''10.0.0.5'' (initial_engine {}))
          [Analyze [\<lparr>rule_name = ''scan'', enabled = True, outcome = Returns [''Port scan by 10.0.0.5'', ''Large transfer 10.0.0.5 -> 203.0.113.9'']\<rparr>],
           ClearAlerts, RemoveFalsePositive ''10.9.9.9'',
           Analyze [\<lparr>rule_name = ''vt'', enabled = True, outcome = Returns [''VirusTotal flagged connection 10.0.0.5 -> 203.0.113.9'', ''Port scan by 10.0.0.5'']\<rparr>]])))"
proof -
  have n: "RemoveFalsePositive ''10.0.0.5'' \<notin> set
      [Analyze [\<lparr>rule_name = ''scan'', enabled = True, outcome = Returns [''Port scan by 10.0.0.5'', ''Large transfer 10.0.0.5 -> 203.0.113.9'']\<rparr>],
       ClearAlerts, RemoveFalsePositive ''10.9.9.9'',
       Analyze [\<lparr>rule_name = ''vt'', enabled = True, outcome = Returns [''VirusTotal flagged connection 10.0.0.5 -> 203.0.113.9'', ''Port scan by 10.0.0.5'']\<rparr>]]"
    by simp
  have q: "alert_queue (run_events (mark_as_false_positive ''10.0.0.5'' (initial_engine {}))
      [Analyze [\<lparr>rule_name = ''scan'', enabled = True, outcome = Returns [''Port scan by 10.0.0.5'', ''Large transfer 10.0.0.5 -> 203.0.113.9'']\<rparr>],
       ClearAlerts, RemoveFalsePositive ''10.9.9.9'',
       Analyze [\<lparr>rule_name = ''vt'', enabled = True, outcome = Returns [''VirusTotal flagged connection 10.0.0.5 -> 203.0.113.9'', ''Port scan by 10.0.0.5'']\<rparr>]]) =
     [(''203.0.113.9'', ''VirusTotal flagged connection 10.0.0.5 -> 203.0.113.9'', ''vt'')]"
    by code_simp
  from n false_positive_suppression [of "''10.0.0.5''"
      "[Analyze [\<lparr>rule_name = ''scan'', enabled = True, outcome = Returns [''Port scan by 10.0.0.5'', ''Large transfer 10.0.0.5 -> 203.0.113.9'']\<rparr>],
        ClearAlerts, RemoveFalsePositive ''10.9.9.9'',
        Analyze [\<lparr>rule_name = ''vt'', enabled = True, outcome = Returns [''VirusTotal flagged connection 10.0.0.5 -> 203.0.113.9'', ''Port scan by 10.0.0.5'']\<rparr>]]"
      "initial_engine {}"]
  have "\<forall>e \<in> set (drop (length (alert_queue (mark_as_false_positive ''10.0.0.5'' (initial_engine {}))))
       (alert_queue (run_events (mark_as_false_positive ''10.0.0.5'' (initial_engine {}))
          [Analyze [\<lparr>rule_name = ''scan'', enabled = True, outcome = Returns [''Port scan by 10.0.0.5'', ''Large transfer 10.0.0.5 -> 203.0.113.9'']\<rparr>],
           ClearAlerts, RemoveFalsePositive ''10.9.9.9'',
           Analyze [\<lparr>rule_name = ''vt'', enabled = True, outcome = Returns [''VirusTotal flagged connection 10.0.0.5 -> 203.0.113.9'', ''Port scan by 10.0.0.5'']\<rparr>]]))). fst e \<noteq> ''10.0.0.5''"
    by blast
  then show ?thesis using n q by (simp only: list_all_iff simp_thms)
qed

text \<open>
  The claim as stated fails once X is removed from the set again: a later cycle queues
  (and, for a text that holds "virustotal", notifies) an alert attributed to X.
\<close>

theorem false_positive_suppression_counterexample:
  "alert_queue (run_events (mark_as_false_positive ''203.0.113.9'' (initial_engine {}))
      [RemoveFalsePositive ''203.0.113.9'',
       Analyze [\<lparr>rule_name = ''vt'', enabled = True, outcome = Returns [''VirusTotal flagged connection 10.0.0.5 -> 203.0.113.9'']\<rparr>]]) =
     [(''203.0.113.9'', ''VirusTotal flagged connection 10.0.0.5 -> 203.0.113.9'', ''vt'')] \<and>
   notifications (run_events (mark_as_false_positive ''203.0.113.9'' (initial_engine {}))
      [RemoveFalsePositive ''203.0.113.9'',
       Analyze [\<lparr>rule_name = ''vt'', enabled = True, outcome = Returns [''VirusTotal flagged connection 10.0.0.5 -> 203.0.113.9'']\<rparr>]]) =
     [(''VirusTotal flagged connection 10.0.0.5 -> 203.0.113.9'', ''vt'', ''203.0.113.9'')]"
  by code_simp

section \<open>Properties of the decode loop\<close>

subsection \<open>The buffer bound\<close>

lemma capture_step_bound:
  "length (capture_step valid_json buffer raw_line) \<le> max_buffer \<or>
   capture_step valid_json buffer raw_line = buffer"
  by (simp add: capture_step_def Let_def)

lemma capture_step_invariant:
  "length buffer \<le> max_buffer \<Longrightarrow> length (capture_step valid_json buffer raw_line) \<le> max_buffer"
  using capture_step_bound [of valid_json buffer raw_line] by auto

lemma foldl_capture_step_invariant:
  "length buffer \<le> max_buffer \<Longrightarrow>
   length (foldl (capture_step valid_json) buffer feed) \<le> max_buffer"
  by (induction feed arbitrary: buffer) (simp_all add: capture_step_invariant)

lemma ek_scan_nothing_valid: "ek_scan (\<lambda>s. False) ls = []"
proof (induction ls rule: length_induct)
  case (1 ls)
  show ?case
  proof (cases ls)
    case Nil
    then show ?thesis by simp
  next
    case (Cons l rest)
    have r: "ek_scan (\<lambda>s. False) rest = []" using 1 Cons by simp
    show ?thesis unfolding Cons using r
      by (subst ek_scan.simps) (auto simp del: ek_scan.simps simp add: ek_scan.simps(1) split: list.split)
  qed
qed

lemma capture_step_reset:
  assumes "py_strip raw_line \<noteq> []"
    and "max_buffer < length buffer + length (py_strip raw_line) + 1"
  shows "capture_step (\<lambda>s. False) buffer raw_line = []"
  using assms by (simp add: capture_step_def Let_def extract_ek_objects_def ek_scan_nothing_valid)

text \<open>
  C9. At the start of every iteration of the decode loop the buffer holds at most
  10,000,000 characters, so that with the line of that iteration appended it holds at most
  the bound plus that line (and its newline). An iteration either leaves the buffer as it
  was (an empty line) or ends with a buffer within the bound: a buffer that has grown
  past it is discarded. In particular, on a feed none of whose lines parses, the buffer
  becomes empty in the iteration where it would exceed the bound.
\<close>

theorem buffer_bounded:
  "length (capture_buffer valid_json feed) \<le> max_buffer \<and>
   length (capture_buffer valid_json feed @ py_strip raw_line @ [newline])
     \<le> max_buffer + (length (py_strip raw_line) + 1) \<and>
   (length (capture_step valid_json buffer raw_line) \<le> max_buffer \<or>
    capture_step valid_json buffer raw_line = buffer) \<and>
   (py_strip raw_line \<noteq> [] \<and> max_buffer < length buffer + length (py_strip raw_line) + 1 \<longrightarrow>
    capture_step (\<lambda>s. False) buffer raw_line = [])"
proof (intro conjI impI)
  show b: "length (capture_buffer valid_json feed) \<le> max_buffer"
    unfolding capture_buffer_def by (rule foldl_capture_step_invariant) simp
  then show "length (capture_buffer valid_json feed @ py_strip raw_line @ [newline])
     \<le> max_buffer + (length (py_strip raw_line) + 1)"
    by simp
  show "length (capture_step valid_json buffer raw_line) \<le> max_buffer \<or>
    capture_step valid_json buffer raw_line = buffer"
    by (rule capture_step_bound)
next
  assume "py_strip raw_line \<noteq> [] \<and> max_buffer < length buffer + length (py_strip raw_line) + 1"
  then show "capture_step (\<lambda>s. False) buffer raw_line = []"
    using capture_step_reset by blast
qed

theorem buffer_bounded_witness:
  "py_strip ''x'' \<noteq> [] \<and>
   max_buffer < length (replicate 10000000 (CHR ''a'')) + length (py_strip ''x'') + 1 \<and>
   capture_step (\<lambda>s. False) (replicate 10000000 (CHR ''a'')) ''x'' = [] \<and>
   length (capture_buffer (\<lambda>s. True) [''abc'', '''', ''def'']) \<le> max_buffer"
proof -
  have s: "py_strip ''x'' = ''x''" by (simp add: py_strip_def is_space_def)
  have m: "max_buffer < length (replicate 10000000 (CHR ''a'')) + length (py_strip ''x'') + 1"
    by (simp add: s max_buffer_def)
  from buffer_bounded [of "\<lambda>s. True" "[''abc'', '''', ''def'']" "''x''" "replicate 10000000 (CHR ''a'')"] s m
  show ?thesis by simp
qed

subsection \<open>The connection upsert\<close>

lemma call_add_packet_surplus:
  "call_add_packet rows k s d sp dp len rdp (m # ms) = Inl TypeError"
  by (simp add: call_add_packet_def)

lemma update_connection_ttl_counters:
  "map (\<lambda>r. (conn_key r, total_bytes r, packet_count r)) (update_connection_ttl rows k t) =
   map (\<lambda>r. (conn_key r, total_bytes r, packet_count r)) rows"
  by (induction rows) (simp_all add: update_connection_ttl_def)

lemma process_packet_ek_counters:
  "map (\<lambda>r. (conn_key r, total_bytes r, packet_count r)) (snd (process_packet_ek fps rows pkt)) =
   map (\<lambda>r. (conn_key r, total_bytes r, packet_count r)) rows \<and>
   (truthy (pkt_src_ip pkt) \<and> truthy (pkt_dst_ip pkt) \<longrightarrow> \<not> fst (process_packet_ek fps rows pkt))"
proof (cases "pkt_ttl pkt")
  case None
  then show ?thesis
    by (simp add: process_packet_ek_def Let_def call_add_packet_def)
next
  case (Some t)
  then show ?thesis
    by (simp add: process_packet_ek_def Let_def call_add_packet_def update_connection_ttl_counters)
qed

lemma process_packets_counters:
  "map (\<lambda>r. (conn_key r, total_bytes r, packet_count r)) (process_packets fps rows pkts) =
   map (\<lambda>r. (conn_key r, total_bytes r, packet_count r)) rows"
  unfolding process_packets_def
  by (induction pkts arbitrary: rows) (simp_all add: process_packet_ek_counters)

lemma add_packet_twice:
  assumes "k \<notin> conn_key ` set rows"
  shows "filter (\<lambda>r. conn_key r = k)
           (snd (add_packet (snd (add_packet rows k s d sp dp l1 rdp)) k s d sp dp l2 rdp)) =
         [\<lparr>conn_key = k, conn_src_ip = s, conn_dst_ip = d, conn_src_port = sp, conn_dst_port = dp,
           total_bytes = l1 + l2, packet_count = 2, is_rdp_client = rdp, conn_ttl = None\<rparr>]"
proof -
  have f: "filter (\<lambda>r. conn_key r = k) rows = []"
    using assms by (auto simp: filter_empty_conv)
  have m: "map (\<lambda>r. if conn_key r = k then r\<lparr>total_bytes := total_bytes r + x, packet_count := packet_count r + 1\<rparr> else r) rows = rows" for x
    using assms by (induction rows) auto
  show ?thesis
    by (simp add: add_packet_def Let_def f m)
qed

text \<open>
  C4. \<open>add_packet\<close>, called with its own parameters for a key that has no row, inserts
  the row on the first call and adds to its counters on the second: lengths 100 and 200
  give one row with \<open>total_bytes = 300\<close> and \<open>packet_count = 2\<close>. The decoder, however,
  calls it with a surplus positional argument (\<open>src_mac\<close>); the call raises, the handler
  of \<open>process_packet_ek\<close> returns \<open>False\<close>, and decoding the two records leaves the
  connections table without any row.
\<close>

theorem decode_two_packets:
  "process_packets {} []
     [\<lparr>pkt_src_ip = Some ''10.0.0.1'', pkt_dst_ip = Some ''10.0.0.2'', pkt_src_port = Some 1234,
       pkt_dst_port = Some 8080, pkt_length = 100, pkt_src_mac = None, pkt_ttl = Some 64,
       pkt_has_arp = False\<rparr>,
      \<lparr>pkt_src_ip = Some ''10.0.0.1'', pkt_dst_ip = Some ''10.0.0.2'', pkt_src_port = Some 1234,
       pkt_dst_port = Some 8080, pkt_length = 200, pkt_src_mac = None, pkt_ttl = Some 64,
       pkt_has_arp = False\<rparr>] = [] \<and>
   fst (process_packet_ek {} []
     \<lparr>pkt_src_ip = Some ''10.0.0.1'', pkt_dst_ip = Some ''10.0.0.2'', pkt_src_port = Some 1234,
       pkt_dst_port = Some 8080, pkt_length = 100, pkt_src_mac = None, pkt_ttl = Some 64,
       pkt_has_arp = False\<rparr>) = False \<and>
   snd (add_packet (snd (add_packet [] ''10.0.0.1:1234->10.0.0.2:8080'' ''10.0.0.1'' ''10.0.0.2''
                            (Some 1234) (Some 8080) 100 0))
          ''10.0.0.1:1234->10.0.0.2:8080'' ''10.0.0.1'' ''10.0.0.2'' (Some 1234) (Some 8080) 200 0) =
     [\<lparr>conn_key = ''10.0.0.1:1234->10.0.0.2:8080'', conn_src_ip = ''10.0.0.1'',
       conn_dst_ip = ''10.0.0.2'', conn_src_port = Some 1234, conn_dst_port = Some 8080,
       total_bytes = 300, packet_count = 2, is_rdp_client = 0, conn_ttl = None\<rparr>]"
  by (simp add: process_packets_def process_packet_ek_def truthy_def packet_key_def
      update_connection_ttl_def call_add_packet_def add_packet_def Let_def)

theorem decode_two_packets_witness:
  "length (process_packets {} []
     [\<lparr>pkt_src_ip = Some ''10.0.0.1'', pkt_dst_ip = Some ''10.0.0.2'', pkt_src_port = Some 1234,
       pkt_dst_port = Some 8080, pkt_length = 100, pkt_src_mac = None, pkt_ttl = Some 64,
       pkt_has_arp = False\<rparr>,
      \<lparr>pkt_src_ip = Some ''10.0.0.1'', pkt_dst_ip = Some ''10.0.0.2'', pkt_src_port = Some 1234,
       pkt_dst_port = Some 8080, pkt_length = 200, pkt_src_mac = None, pkt_ttl = Some 64,
       pkt_has_arp = False\<rparr>]) = 0"
  using decode_two_packets by simp

section \<open>Properties of the synchronisation\<close>

subsection \<open>The order of stored values\<close>

lemma sql_gt_Null [simp]: "\<not> sql_gt a Null" "\<not> sql_gt Null b"
  by (cases a; simp) simp

lemma sql_gt_irrefl [simp]: "\<not> sql_gt a a"
  by (cases a) simp_all


lemma sql_gt_total: "a \<noteq> Null \<Longrightarrow> b \<noteq> Null \<Longrightarrow> \<not> sql_gt a b \<Longrightarrow> \<not> sql_gt b a \<Longrightarrow> a = b"
  by (cases a; cases b) auto

lemma sql_le_trans: "\<not> sql_gt a b \<Longrightarrow> \<not> sql_gt b c \<Longrightarrow> b \<noteq> Null \<Longrightarrow> \<not> sql_gt a c"
  by (cases a; cases b; cases c) auto

lemma sql_gt_le_trans: "sql_gt a b \<Longrightarrow> \<not> sql_gt c b \<Longrightarrow> c \<noteq> Null \<Longrightarrow> sql_gt a c"
  by (cases a; cases b; cases c) auto


lemma sql_max2_props:
  "(sql_max2 a b = a \<or> sql_max2 a b = b) \<and> \<not> sql_gt a (sql_max2 a b) \<and> \<not> sql_gt b (sql_max2 a b) \<and>
   (sql_max2 a b = Null \<longleftrightarrow> a = Null \<and> b = Null)"
  by (cases a; cases b) (auto simp: sql_max2_def)

lemma foldl_sql_max2:
  "(foldl sql_max2 m vs = m \<or> foldl sql_max2 m vs \<in> set vs) \<and>
   \<not> sql_gt m (foldl sql_max2 m vs) \<and>
   (\<forall>v \<in> set vs. \<not> sql_gt v (foldl sql_max2 m vs)) \<and>
   (foldl sql_max2 m vs = Null \<longleftrightarrow> m = Null \<and> (\<forall>v \<in> set vs. v = Null))"
proof (induction vs arbitrary: m)
  case Nil
  then show ?case by simp
next
  case (Cons v vs)
  let ?m = "sql_max2 m v"
  let ?r = "foldl sql_max2 ?m vs"
  note ih = Cons.IH [of ?m]
  note p = sql_max2_props [of m v]
  have 1: "?r = m \<or> ?r \<in> set (v # vs)" using ih p by auto
  have nn: "?r = Null \<longleftrightarrow> m = Null \<and> (\<forall>x \<in> set (v # vs). x = Null)" using ih p by auto
  have 2: "\<not> sql_gt m ?r"
  proof (cases "?m = Null")
    case True
    then show ?thesis using p by simp
  next
    case False
    from p have "\<not> sql_gt m ?m" by simp
    moreover from ih have "\<not> sql_gt ?m ?r" by simp
    ultimately show ?thesis using False by (rule sql_le_trans)
  qed
  have 3: "\<not> sql_gt v ?r"
  proof (cases "?m = Null")
    case True
    then show ?thesis using p by simp
  next
    case False
    from p have "\<not> sql_gt v ?m" by simp
    moreover from ih have "\<not> sql_gt ?m ?r" by simp
    ultimately show ?thesis using False by (rule sql_le_trans)
  qed
  from 1 2 3 nn ih show ?case by simp
qed

lemma sql_max_props:
  "(sql_max vs = Null \<or> sql_max vs \<in> set vs) \<and>
   (\<forall>v \<in> set vs. \<not> sql_gt v (sql_max vs)) \<and>
   (sql_max vs = Null \<longleftrightarrow> (\<forall>v \<in> set vs. v = Null))"
  using foldl_sql_max2 [of Null vs] unfolding sql_max_def by auto

lemma sql_max_unique:
  assumes "m \<in> set vs" and "m \<noteq> Null" and "\<forall>v \<in> set vs. \<not> sql_gt v m"
  shows "sql_max vs = m"
proof -
  from sql_max_props [of vs] assms(1,2) have n: "sql_max vs \<noteq> Null" by auto
  with sql_max_props [of vs] have i: "sql_max vs \<in> set vs" by auto
  from sql_max_props [of vs] assms(1) have "\<not> sql_gt m (sql_max vs)" by auto
  moreover from assms(3) i have "\<not> sql_gt (sql_max vs) m" by auto
  ultimately show ?thesis using n assms(2) sql_gt_total by blast
qed

lemma sql_max_cong: "set vs = set ws \<Longrightarrow> sql_max vs = sql_max ws"
proof -
  assume e: "set vs = set ws"
  show ?thesis
  proof (cases "sql_max ws = Null")
    case True
    with sql_max_props [of ws] e sql_max_props [of vs] show ?thesis by auto
  next
    case False
    with sql_max_props [of ws] have "sql_max ws \<in> set vs" "\<forall>v \<in> set vs. \<not> sql_gt v (sql_max ws)"
      using e by auto
    with False show ?thesis by (intro sql_max_unique) auto
  qed
qed

subsection \<open>Rows and keys\<close>

lemma cell_nth:
  "distinct names \<Longrightarrow> length vals = length names \<Longrightarrow> i < length names \<Longrightarrow>
   cell names vals (names ! i) = vals ! i"
  by (simp add: cell_def map_of_zip_nth)

lemma map_cell_id:
  "distinct names \<Longrightarrow> length vals = length names \<Longrightarrow> map (cell names vals) names = vals"
  by (rule nth_equalityI) (simp_all add: cell_nth)

lemma colnames_update_rows [simp]: "colnames (t\<lparr>t_rows := rs\<rparr>) = colnames t"
  by (simp add: colnames_def)

lemma row_key_update_rows [simp]: "row_key (t\<lparr>t_rows := rs\<rparr>) = row_key t"
  by (rule ext) (simp add: row_key_def)

lemma timestamp_of_update_rows [simp]: "timestamp_of (t\<lparr>t_rows := rs\<rparr>) = timestamp_of t"
  by (rule ext) (simp add: timestamp_of_def)

lemma put_row_update_rows [simp]: "put_row (t\<lparr>t_rows := rs\<rparr>) = put_row t"
  by (rule ext)+ (simp add: put_row_def)

lemma same_schema_funs:
  assumes "t_columns a = t_columns b" and "t_pkey a = t_pkey b"
  shows "colnames a = colnames b" and "row_key a = row_key b" and "timestamp_of a = timestamp_of b"
    and "put_row a = put_row b"
proof -
  show c: "colnames a = colnames b" using assms by (simp add: colnames_def)
  show k: "row_key a = row_key b" using assms c by (intro ext) (simp add: row_key_def)
  show "timestamp_of a = timestamp_of b" using c by (intro ext) (simp add: timestamp_of_def)
  show "put_row a = put_row b" using assms k by (intro ext) (simp add: put_row_def)
qed

lemma replace_row_set: "set (replace_row k x rs) \<subseteq> insert x (set rs)"
  by (induction rs) auto

lemma replace_row_mem: "x \<in> set (replace_row k x rs)"
  by (induction rs) auto

lemma replace_row_other: "r \<in> set rs \<Longrightarrow> k r \<noteq> k x \<Longrightarrow> r \<in> set (replace_row k x rs)"
  by (induction rs) auto



lemma put_row_set: "set (put_row t x rs) \<subseteq> insert x (set rs)"
  using replace_row_set [of "row_key t" x rs] by (auto simp: put_row_def)

lemma put_row_mem: "x \<in> set (put_row t x rs)"
  by (simp add: put_row_def replace_row_mem)

lemma put_row_other:
  "r \<in> set rs \<Longrightarrow> row_key t r \<noteq> row_key t x \<Longrightarrow> r \<in> set (put_row t x rs)"
  by (simp add: put_row_def replace_row_other)



lemma put_all_set: "set (foldl (\<lambda>acc r. put_row t r acc) R S) \<subseteq> set R \<union> set S"
proof (induction S arbitrary: R)
  case Nil
  then show ?case by simp
next
  case (Cons x S)
  from Cons.IH [of "put_row t x R"] put_row_set [of t x R] show ?case by auto
qed




lemma put_all_survive:
  "distinct (map (row_key t) S) \<Longrightarrow> s \<in> set S \<Longrightarrow> s \<in> set (foldl (\<lambda>acc r. put_row t r acc) R S)"
proof (induction S arbitrary: R rule: rev_induct)
  case Nil
  then show ?case by simp
next
  case (snoc x S)
  show ?case
  proof (cases "s = x")
    case True
    then show ?thesis by (simp add: put_row_mem)
  next
    case False
    with snoc.prems have m: "s \<in> set S" and d: "distinct (map (row_key t) S)"
      and nx: "row_key t x \<notin> row_key t ` set S" by auto
    from m have "row_key t s \<in> row_key t ` set S" by (rule imageI)
    with nx have ne: "row_key t s \<noteq> row_key t x" by metis
    from snoc.IH [OF d m] have "s \<in> set (foldl (\<lambda>acc r. put_row t r acc) R S)" .
    then show ?thesis using ne by (simp add: put_row_other)
  qed
qed

subsection \<open>Inserting into a table of the same definition\<close>

lemma insert_or_replace_same:
  assumes "colnames t = names" and "distinct names" and "length r = length names"
  shows "insert_or_replace t names r = Inr (t\<lparr>t_rows := put_row t r (t_rows t)\<rparr>)"
  using assms by (simp add: insert_or_replace_def map_cell_id)

lemma foldl_insert_row_same:
  assumes "colnames t = names" and "distinct names" and "\<forall>r \<in> set rs. length r = length names"
  shows "foldl (insert_row names) (t, n) rs =
         (t\<lparr>t_rows := foldl (\<lambda>acc r. put_row t r acc) (t_rows t) rs\<rparr>, n + length rs)"
  using assms
proof (induction rs arbitrary: t n)
  case Nil
  then show ?case by simp
next
  case (Cons r rs)
  have 1: "insert_row names (t, n) r = (t\<lparr>t_rows := put_row t r (t_rows t)\<rparr>, n + 1)"
    using Cons.prems by (simp add: insert_row_def insert_or_replace_same)
  have c: "colnames (t\<lparr>t_rows := put_row t r (t_rows t)\<rparr>) = names"
    using Cons.prems by simp
  have l: "\<forall>r \<in> set rs. length r = length names" using Cons.prems by simp
  from Cons.IH [OF c Cons.prems(2) l, of "n + 1"] 1 show ?case by simp
qed

lemma insert_rows_same:
  assumes "colnames t = names" and "distinct names" and "\<forall>r \<in> set rs. length r = length names"
  shows "insert_rows names t rs =
         (t\<lparr>t_rows := foldl (\<lambda>acc r. put_row t r acc) (t_rows t) rs\<rparr>, length rs)"
  using foldl_insert_row_same [OF assms, of 0] by (simp add: insert_rows_def)

lemma foldl_insert_row_fail:
  assumes "\<not> set names \<subseteq> set (colnames t)"
  shows "foldl (insert_row names) (t, n) rs = (t, n)"
  using assms by (induction rs) (simp_all add: insert_row_def insert_or_replace_def)

subsection \<open>Failures during a pass\<close>




subsection \<open>The tables of a pass, one by one\<close>

lemma sync_table_form:
  assumes "map_of capture m = Some ct"
  shows "\<exists>c' k'. sync_table env capture (an, c, k) m =
           (AList.update m (fst (sync_one env m ct (map_of an m))) an, c', k')"
  using assms by (cases "sync_one env m ct (map_of an m)") (simp add: sync_table_def)

lemma foldl_sync_table_lookup:
  assumes "distinct ns" and "\<forall>m \<in> set ns. map_of capture m \<noteq> None"
  shows "map_of (fst (foldl (sync_table env capture) (an, c, k) ns)) n =
         (if n \<in> set ns then Some (fst (sync_one env n (the (map_of capture n)) (map_of an n)))
          else map_of an n)"
  using assms
proof (induction ns arbitrary: an c k)
  case Nil
  then show ?case by simp
next
  case (Cons m ns)
  from Cons.prems obtain ct where ct: "map_of capture m = Some ct" by auto
  from sync_table_form [OF ct, of env an c k] obtain c' k' where
    st: "sync_table env capture (an, c, k) m =
           (AList.update m (fst (sync_one env m ct (map_of an m))) an, c', k')"
    by blast
  let ?an = "AList.update m (fst (sync_one env m ct (map_of an m))) an"
  have d: "distinct ns" "\<forall>m \<in> set ns. map_of capture m \<noteq> None" "m \<notin> set ns"
    using Cons.prems by auto
  have ih: "map_of (fst (foldl (sync_table env capture) (?an, c', k') ns)) n =
         (if n \<in> set ns then Some (fst (sync_one env n (the (map_of capture n)) (map_of ?an n)))
          else map_of ?an n)"
    by (rule Cons.IH [OF d(1,2)])
  show ?case
  proof (cases "n = m")
    case True
    with d(3) ih st ct show ?thesis by (simp add: update_conv')
  next
    case False
    with ih st show ?thesis by (simp add: update_conv')
  qed
qed

lemma sync_tables_lookup:
  assumes "distinct (map fst capture)"
  shows "map_of (fst (sync_tables env capture an)) n =
         (if n \<in> set (all_tables capture)
          then Some (fst (sync_one env n (the (map_of capture n)) (map_of an n)))
          else map_of an n)"
proof -
  have d: "distinct (all_tables capture)"
    using assms by (simp add: all_tables_def)
  have e: "\<forall>m \<in> set (all_tables capture). map_of capture m \<noteq> None"
    by (auto simp: all_tables_def map_of_eq_None_iff)
  show ?thesis unfolding sync_tables_def
    by (rule foldl_sync_table_lookup [OF d e])
qed

subsection \<open>The enrichment step\<close>

lemma cell_set_cell:
  "c' \<noteq> c \<Longrightarrow> cell names (set_cell names vals c v) c' = cell names vals c'"
proof (induction names arbitrary: vals)
  case Nil
  then show ?case by (simp add: cell_def set_cell_def)
next
  case (Cons n names)
  show ?case
  proof (cases vals)
    case Nil
    then show ?thesis by (simp add: cell_def set_cell_def)
  next
    case (Cons x xs)
    with Cons.IH [OF Cons.prems, of xs] Cons.prems show ?thesis
      by (auto simp: cell_def set_cell_def)
  qed
qed

lemma resolve_lookup_None:
  "map_of (fst (resolve_domain_names env an)) n = None \<longleftrightarrow> map_of an n = None"
  by (auto simp: resolve_domain_names_def update_conv' split: option.splits)

lemma resolve_lookup_Some:
  assumes "map_of (fst (resolve_domain_names env an)) n = Some t'"
  shows "\<exists>t. map_of an n = Some t \<and> t_columns t' = t_columns t \<and> t_pkey t' = t_pkey t \<and>
           length (t_rows t') = length (t_rows t) \<and>
           map (timestamp_of t') (t_rows t') = map (timestamp_of t) (t_rows t) \<and>
           (''server_name'' \<notin> set (t_pkey t) \<longrightarrow>
              map (row_key t') (t_rows t') = map (row_key t) (t_rows t))"
proof (cases "n = ''tls_connections'' \<and> (\<exists>t. map_of an n = Some t \<and>
          {''id'', ''server_name'', ''connection_key''} \<subseteq> set (colnames t))")
  case False
  then have "map_of (fst (resolve_domain_names env an)) n = map_of an n"
    by (auto simp: resolve_domain_names_def update_conv' split: option.splits)
  with assms show ?thesis by simp
next
  case True
  then obtain t where t: "n = ''tls_connections''" "map_of an ''tls_connections'' = Some t"
    "{''id'', ''server_name'', ''connection_key''} \<subseteq> set (colnames t)" by auto
  let ?f = "\<lambda>r. case resolved_name env r of None \<Rightarrow> r
                 | Some h \<Rightarrow> set_cell (colnames t) r ''server_name'' (Txt h)"
  have t': "t' = t\<lparr>t_rows := map ?f (t_rows t)\<rparr>"
    using assms t by (simp add: resolve_domain_names_def update_conv')
  have ts: "timestamp_of t (?f r) = timestamp_of t r" for r
    by (cases "resolved_name env r") (simp_all add: timestamp_of_def cell_set_cell)
  have k: "row_key t (?f r) = row_key t r" if "''server_name'' \<notin> set (t_pkey t)" for r
  proof (cases "resolved_name env r")
    case None
    then show ?thesis by simp
  next
    case (Some h)
    have "cell (colnames t) (set_cell (colnames t) r ''server_name'' (Txt h)) c = cell (colnames t) r c"
      if "c \<in> set (t_pkey t)" for c
      using that \<open>''server_name'' \<notin> set (t_pkey t)\<close> by (intro cell_set_cell) auto
    with Some show ?thesis by (simp add: row_key_def)
  qed
  show ?thesis
    using t t' ts k by (auto simp: comp_def)
qed


subsection \<open>One table, with the same definition in both stores\<close>

lemma select_rows_same:
  assumes "t_columns at = t_columns ct"
  shows "select_rows env ct (Some at) =
         Inr (if ''timestamp'' \<in> set (colnames ct)
              then filter (\<lambda>r. sql_gt (timestamp_of ct r)
                                 (cutoff env ct (sql_max (map (timestamp_of at) (t_rows at)))))
                     (t_rows ct)
              else t_rows ct)"
  using assms by (simp add: select_rows_def max_timestamp_def colnames_def)

lemma select_rows_subset:
  "select_rows env ct ex = Inr rs \<Longrightarrow> set rs \<subseteq> set (t_rows ct)"
  by (auto simp: select_rows_def split: option.splits if_splits sum.splits)

lemma sync_one_existing:
  assumes "t_columns at = t_columns ct" and "t_pkey at = t_pkey ct"
    and "distinct (colnames ct)" and "\<forall>r \<in> set (t_rows ct). length r = length (t_columns ct)"
    and "table_name \<noteq> ''arp_data''" and "t_columns ct \<noteq> []"
    and "select_rows env ct (Some at) = Inr rs"
  shows "sync_one env table_name ct (Some at) =
         (at\<lparr>t_rows := foldl (\<lambda>acc r. put_row ct r acc) (t_rows at) rs\<rparr>, length rs, 0)"
proof -
  have c: "colnames at = colnames ct" and p: "put_row at = put_row ct"
    using same_schema_funs [OF assms(1,2)] by simp_all
  have l: "\<forall>r \<in> set rs. length r = length (colnames ct)"
    using select_rows_subset [OF assms(7)] assms(4) by (auto simp: colnames_def)
  have "insert_rows (colnames ct) at rs =
        (at\<lparr>t_rows := foldl (\<lambda>acc r. put_row at r acc) (t_rows at) rs\<rparr>, length rs)"
    by (rule insert_rows_same [OF c assms(3) l])
  then show ?thesis using assms(5,6,7) p by (simp add: sync_one_def)
qed



subsection \<open>The incremental read\<close>

lemma incremental_max:
  assumes "distinct (map (row_key ct) C)"
    and tk: "sql_max (map ts R) = tk" "tk \<noteq> Null"
    and tN: "sql_max (map ts C) = tN" "tN \<noteq> Null" "\<not> sql_gt tk tN"
  shows "sql_max (map ts (foldl (\<lambda>acc r. put_row ct r acc) R (filter (\<lambda>r. sql_gt (ts r) tk) C))) = tN"
proof -
  let ?S = "filter (\<lambda>r. sql_gt (ts r) tk) C"
  let ?R' = "foldl (\<lambda>acc r. put_row ct r acc) R ?S"
  have sub: "set ?R' \<subseteq> set R \<union> set C"
    using put_all_set [of ct R ?S] by auto
  have upR: "\<forall>r \<in> set R. \<not> sql_gt (ts r) tN"
  proof
    fix r assume "r \<in> set R"
    then have "\<not> sql_gt (ts r) tk" using sql_max_props [of "map ts R"] tk(1) by auto
    then show "\<not> sql_gt (ts r) tN" using tN(3) tk(2) by (rule sql_le_trans)
  qed
  have upC: "\<forall>r \<in> set C. \<not> sql_gt (ts r) tN"
    using sql_max_props [of "map ts C"] tN(1) by auto
  have up: "\<forall>v \<in> set (map ts ?R'). \<not> sql_gt v tN"
    using sub upR upC by auto
  have "tN \<in> set (map ts C)" using sql_max_props [of "map ts C"] tN(1,2) by auto
  then obtain c where c: "c \<in> set C" "ts c = tN" by auto
  have mem: "tN \<in> set (map ts ?R')"
  proof (cases "sql_gt tN tk")
    case True
    with c have "c \<in> set ?S" by simp
    moreover have "distinct (map (row_key ct) ?S)" using assms(1) by (rule distinct_map_filter)
    ultimately have "c \<in> set ?R'" by (intro put_all_survive)
    with c(2) show ?thesis by force
  next
    case False
    with tN(2,3) tk(2) have e: "tN = tk" using sql_gt_total by blast
    have "?S = []" using upC e by (auto simp: filter_empty_conv)
    moreover have "tk \<in> set (map ts R)" using sql_max_props [of "map ts R"] tk by auto
    ultimately show ?thesis using e by simp
  qed
  from mem tN(2) up show ?thesis by (rule sql_max_unique)
qed

lemma sync_databases_ok:
  assumes "\<not> begin_fails env" and "\<not> list_fails env" and "\<not> commit_fails env"
  shows "fst (sync_databases env capture analysis) =
         fst (resolve_domain_names env (fst (sync_tables env capture analysis)))"
  using assms by (simp add: sync_databases_def split: prod.splits)

lemma in_all_tables:
  "map_of capture n = Some ct \<Longrightarrow> \<not> system_table n \<Longrightarrow> n \<in> set (all_tables capture)"
  by (auto simp: all_tables_def dest: map_of_SomeD intro: rev_image_eqI)

text \<open>
  C2 (as amended). Take a capture table other than \<open>arp_data\<close> that is not a system
  table, has a timestamp column and already exists in the analysis store with the same
  definition, with maximum timestamp \<open>tk\<close> there, such that the cutoff the pass computes
  from \<open>tk\<close> is \<open>tk\<close> itself (for a numeric timestamp column whenever \<open>tk\<close> is not the
  empty text; for another declared type when \<open>tk\<close> is neither zero nor empty and
  \<open>datetime\<close> returns it unchanged). Then the replication of a pass writes to the analysis
  table, by insert-or-replace, exactly the capture rows whose timestamp is above \<open>tk\<close>; and
  when \<open>tk\<close> is not above the capture table's maximum \<open>tN\<close>, the maximum timestamp of the
  analysis table after the pass is \<open>tN\<close>.
\<close>

theorem incremental_sync:
  assumes "distinct (map fst capture)"
    and "map_of capture table_name = Some ct" and "\<not> system_table table_name"
    and "table_name \<noteq> ''arp_data''"
    and "map_of analysis table_name = Some at"
    and "t_columns at = t_columns ct" and "t_pkey at = t_pkey ct"
    and "distinct (colnames ct)" and "''timestamp'' \<in> set (colnames ct)"
    and "\<forall>r \<in> set (t_rows ct). length r = length (t_columns ct)"
    and "distinct (map (row_key ct) (t_rows ct))"
    and "max_timestamp at = Inr tk" and "tk \<noteq> Null" and "cutoff env ct tk = tk"
    and "max_timestamp ct = Inr tN" and "tN \<noteq> Null" and "\<not> sql_gt tk tN"
    and "\<not> begin_fails env" and "\<not> list_fails env" and "\<not> commit_fails env"
  shows "map_of (fst (sync_tables env capture analysis)) table_name =
           Some (at\<lparr>t_rows := foldl (\<lambda>acc r. put_row ct r acc) (t_rows at)
                                (filter (\<lambda>r. sql_gt (timestamp_of ct r) tk) (t_rows ct))\<rparr>) \<and>
         (\<exists>t. map_of (fst (sync_databases env capture analysis)) table_name = Some t \<and>
              max_timestamp t = Inr tN)"
proof -
  let ?S = "filter (\<lambda>r. sql_gt (timestamp_of ct r) tk) (t_rows ct)"
  let ?T = "at\<lparr>t_rows := foldl (\<lambda>acc r. put_row ct r acc) (t_rows at) ?S\<rparr>"
  have c: "colnames at = colnames ct" and ts: "timestamp_of at = timestamp_of ct"
    using same_schema_funs [OF assms(6,7)] by simp_all
  have tk: "sql_max (map (timestamp_of ct) (t_rows at)) = tk"
    using assms(12,9) c ts by (simp add: max_timestamp_def)
  have tN: "sql_max (map (timestamp_of ct) (t_rows ct)) = tN"
    using assms(15,9) by (simp add: max_timestamp_def)
  have sel: "select_rows env ct (Some at) = Inr ?S"
    using assms(9,14) tk ts by (simp add: select_rows_same [OF assms(6)])
  have ne: "t_columns ct \<noteq> []" using assms(9) by (auto simp: colnames_def)
  have one: "sync_one env table_name ct (Some at) = (?T, length ?S, 0)"
    by (rule sync_one_existing [OF assms(6,7,8,10,4) ne sel])
  have mem: "table_name \<in> set (all_tables capture)"
    by (rule in_all_tables [OF assms(2,3)])
  have 1: "map_of (fst (sync_tables env capture analysis)) table_name = Some ?T"
    using sync_tables_lookup [OF assms(1), of env analysis table_name] mem assms(2,5) one
    by simp
  let ?an = "fst (resolve_domain_names env (fst (sync_tables env capture analysis)))"
  have "map_of ?an table_name \<noteq> None"
    using resolve_lookup_None [of env "fst (sync_tables env capture analysis)" table_name] 1
    by simp
  then obtain t where t: "map_of ?an table_name = Some t" by auto
  from resolve_lookup_Some [OF t] 1
  have tc: "t_columns t = t_columns ?T"
    and tt: "map (timestamp_of t) (t_rows t) = map (timestamp_of ?T) (t_rows ?T)"
    by auto
  have "''timestamp'' \<in> set (colnames t)"
    using tc assms(6,9) by (simp add: colnames_def)
  then have "max_timestamp t = Inr (sql_max (map (timestamp_of ?T) (t_rows ?T)))"
    using tt by (simp add: max_timestamp_def)
  also have "sql_max (map (timestamp_of ?T) (t_rows ?T)) = tN"
    using incremental_max [OF assms(11) tk assms(13) tN assms(16,17)] ts by simp
  finally have "max_timestamp t = Inr tN" .
  with t have 2: "\<exists>t. map_of (fst (sync_databases env capture analysis)) table_name = Some t \<and>
              max_timestamp t = Inr tN"
    using sync_databases_ok [OF assms(18,19,20)] by auto
  from 1 2 show ?thesis by blast
qed

theorem incremental_sync_witness:
  "max_timestamp example_dns_analysis = Inr (Num 100) \<and>
   max_timestamp example_dns_capture = Inr (Num 300) \<and>
   map_of (fst (sync_tables example_env [(''dns_queries'', example_dns_capture)]
                   [(''dns_queries'', example_dns_analysis)])) ''dns_queries'' =
     Some example_dns_capture \<and>
   max_timestamp (the (map_of (fst (sync_databases example_env
       [(''dns_queries'', example_dns_capture)] [(''dns_queries'', example_dns_analysis)]))
       ''dns_queries'')) = Inr (Num 300)"
proof -
  let ?cap = "[(''dns_queries'', example_dns_capture)]"
  let ?an = "[(''dns_queries'', example_dns_analysis)]"
  have h1: "distinct (map fst ?cap)" by simp
  have h2: "map_of ?cap ''dns_queries'' = Some example_dns_capture" by simp
  have h3: "\<not> system_table ''dns_queries''" by (simp add: system_table_def py_lower_def)
  have h4: "''dns_queries'' \<noteq> ''arp_data''" by simp
  have h5: "map_of ?an ''dns_queries'' = Some example_dns_analysis" by simp
  have h6: "t_columns example_dns_analysis = t_columns example_dns_capture"
    by (simp add: example_dns_capture_def example_dns_analysis_def dns_columns_def)
  have h7: "t_pkey example_dns_analysis = t_pkey example_dns_capture"
    by (simp add: example_dns_capture_def example_dns_analysis_def dns_columns_def)
  have h8: "distinct (colnames example_dns_capture)"
    by (simp add: example_dns_capture_def example_dns_analysis_def dns_columns_def colnames_def)
  have h9: "''timestamp'' \<in> set (colnames example_dns_capture)"
    by (simp add: example_dns_capture_def example_dns_analysis_def dns_columns_def colnames_def)
  have h10: "\<forall>r \<in> set (t_rows example_dns_capture). length r = length (t_columns example_dns_capture)"
    by (simp add: example_dns_capture_def example_dns_analysis_def dns_columns_def)
  have h11: "distinct (map (row_key example_dns_capture) (t_rows example_dns_capture))"
    by (simp add: example_dns_capture_def example_dns_analysis_def dns_columns_def row_key_def colnames_def cell_def)
  have h12: "max_timestamp example_dns_analysis = Inr (Num 100)"
    by (simp add: example_dns_capture_def example_dns_analysis_def dns_columns_def max_timestamp_def colnames_def timestamp_of_def cell_def
        sql_max_def sql_max2_def)
  have h13: "Num 100 \<noteq> Null" by simp
  have h14: "cutoff example_env example_dns_capture (Num 100) = Num 100"
    by (simp add: cutoff_def numeric_timestamp_def timestamp_type_def py_upper_def py_or_def
        example_dns_capture_def example_dns_analysis_def dns_columns_def)
  have h15: "max_timestamp example_dns_capture = Inr (Num 300)"
    by (simp add: example_dns_capture_def example_dns_analysis_def dns_columns_def max_timestamp_def colnames_def timestamp_of_def cell_def
        sql_max_def sql_max2_def)
  have h16: "Num 300 \<noteq> Null" by simp
  have h17: "\<not> sql_gt (Num 100) (Num 300)" by simp
  have h18: "\<not> begin_fails example_env" "\<not> list_fails example_env" "\<not> commit_fails example_env"
    by (simp_all add: example_env_def)
  from incremental_sync [OF h1 h2 h3 h4 h5 h6 h7 h8 h9 h10 h11 h12 h13 h14 h15 h16 h17 h18]
  have 1: "map_of (fst (sync_tables example_env ?cap ?an)) ''dns_queries'' =
      Some (example_dns_analysis\<lparr>t_rows :=
         foldl (\<lambda>acc r. put_row example_dns_capture r acc) (t_rows example_dns_analysis)
           (filter (\<lambda>r. sql_gt (timestamp_of example_dns_capture r) (Num 100))
              (t_rows example_dns_capture))\<rparr>)"
    and 2: "\<exists>t. map_of (fst (sync_databases example_env ?cap ?an)) ''dns_queries'' = Some t \<and>
              max_timestamp t = Inr (Num 300)"
    by blast+
  have e: "example_dns_analysis\<lparr>t_rows :=
         foldl (\<lambda>acc r. put_row example_dns_capture r acc) (t_rows example_dns_analysis)
           (filter (\<lambda>r. sql_gt (timestamp_of example_dns_capture r) (Num 100))
              (t_rows example_dns_capture))\<rparr> = example_dns_capture"
    by (simp add: example_dns_capture_def example_dns_analysis_def dns_columns_def put_row_def row_key_def colnames_def cell_def timestamp_of_def)
  from 2 have 3: "max_timestamp (the (map_of (fst (sync_databases example_env ?cap ?an))
       ''dns_queries'')) = Inr (Num 300)"
    by auto
  from 1 e 3 h12 h15 show ?thesis by simp
qed

text \<open>
  The claim as stated fails for \<open>arp_data\<close>, which has a timestamp column: the pass
  clears the analysis table and copies every capture row, also those not above \<open>tk\<close>.
  With analysis maximum 200 no capture row is above it, yet both capture rows are written.
\<close>

theorem incremental_sync_counterexample:
  "''timestamp'' \<in> set (colnames example_arp_capture) \<and>
   max_timestamp example_arp_analysis = Inr (Num 200) \<and>
   filter (\<lambda>r. sql_gt (timestamp_of example_arp_capture r) (Num 200)) (t_rows example_arp_capture) = [] \<and>
   map_of (fst (sync_databases example_env [(''arp_data'', example_arp_capture)]
                  [(''arp_data'', example_arp_analysis)])) ''arp_data'' =
     Some example_arp_capture \<and>
   snd (sync_databases example_env [(''arp_data'', example_arp_capture)]
          [(''arp_data'', example_arp_analysis)]) = 2"
  by (simp add: example_env_def example_arp_capture_def example_arp_analysis_def arp_columns_def
    sync_databases_def sync_tables_def all_tables_def
    system_table_def py_lower_def sync_table_def sync_one_def select_rows_def cutoff_def max_timestamp_def colnames_def
    sql_max_def sql_max2_def py_or_def numeric_timestamp_def timestamp_type_def py_upper_def timestamp_of_def cell_def
    insert_rows_def insert_row_def insert_or_replace_def put_row_def row_key_def resolve_domain_names_def row_count_def Let_def)

subsection \<open>A second pass\<close>










end
